theory Spec2Isabelle
  imports Main "HOL-Library.Word"
begin

section \<open>Python values: strings, bytes, exceptions\<close>

text \<open>
  A Python \<open>str\<close> is a sequence of Unicode code points, so it is modelled as a list of
  natural numbers (not as a HOL \<open>string\<close>, whose characters are bytes). \<open>str\<close> embeds an
  ASCII literal. \<open>bytes\<close> is a list of 8-bit words.
\<close>

type_synonym ustr = "nat list"
type_synonym bytes = "8 word list"

definition str :: "string \<Rightarrow> ustr" where
  "str s = map of_char s"

definition startswith :: "ustr \<Rightarrow> ustr \<Rightarrow> bool" where
  "startswith s p = (take (length p) s = p)"

definition endswith :: "ustr \<Rightarrow> ustr \<Rightarrow> bool" where
  "endswith s p = (length p \<le> length s \<and> drop (length s - length p) s = p)"

text \<open>\<open>s.rfind(c)\<close> for a one-character needle: the highest index of \<open>c\<close>, or \<open>-1\<close>.\<close>

fun rfind :: "ustr \<Rightarrow> nat \<Rightarrow> int" where
  "rfind [] c = - 1"
| "rfind (x # xs) c =
     (let r = rfind xs c in if 0 \<le> r then r + 1 else if x = c then 0 else - 1)"

text \<open>
  The exceptions that occur. \<open>OSError\<close> carries the failing path; the other constructors
  carry the message \<open>str(e)\<close>. In Python \<open>UnicodeDecodeError\<close> is a subclass of
  \<open>ValueError\<close>; \<open>FileNotFoundError\<close> and \<open>IsADirectoryError\<close> are not. \<open>LibraryError\<close>
  stands for any other \<open>Exception\<close> raised inside a library.
\<close>

datatype os_err = EISDIR ustr | EEXIST ustr | ENOENT ustr | ENAMETOOLONG ustr

datatype exn =
    ValueError ustr
  | UnicodeDecodeError ustr
  | FileNotFoundError ustr
  | OSError os_err
  | LibraryError ustr

fun isinstance_ValueError :: "exn \<Rightarrow> bool" where
  "isinstance_ValueError (ValueError m) = True"
| "isinstance_ValueError (UnicodeDecodeError m) = True"
| "isinstance_ValueError (FileNotFoundError m) = False"
| "isinstance_ValueError (OSError e) = False"
| "isinstance_ValueError (LibraryError m) = False"

section \<open>The library functions the program calls\<close>

text \<open>
  \<open>unicodedata.normalize("NFKD", _)\<close> and \<open>str.lower\<close> are table-driven functions of the
  Unicode database, and the text of an \<open>OSError\<close> comes from the C library. They are
  parameters of the model: every theorem below holds for all of them.
\<close>

record pylib =
  normalize_NFKD :: "ustr \<Rightarrow> ustr"
  str_lower :: "ustr \<Rightarrow> ustr"
  oserror_str :: "os_err \<Rightarrow> ustr"

fun exn_str :: "pylib \<Rightarrow> exn \<Rightarrow> ustr" where
  "exn_str L (ValueError m) = m"
| "exn_str L (UnicodeDecodeError m) = m"
| "exn_str L (FileNotFoundError m) = m"
| "exn_str L (OSError e) = oserror_str L e"
| "exn_str L (LibraryError m) = m"

subsection \<open>\<open>os.path\<close> on a POSIX system (\<open>posixpath\<close>)\<close>

definition slash :: nat where "slash = 47"
definition dot :: nat where "dot = 46"
definition underscore :: nat where "underscore = 95"

text \<open>\<open>basename(p)\<close>: \<open>i = p.rfind('/') + 1; return p[i:]\<close>.\<close>

definition basename :: "ustr \<Rightarrow> ustr" where
  "basename p = drop (nat (rfind p slash + 1)) p"

text \<open>
  \<open>splitext(p)\<close>: the extension starts at the last dot, provided that dot comes after the
  last slash and some character between the slash and the dot is not a dot.
\<close>

definition splitext :: "ustr \<Rightarrow> ustr \<times> ustr" where
  "splitext p =
     (let sepIndex = rfind p slash; dotIndex = rfind p dot in
      if sepIndex < dotIndex \<and>
         list_ex (\<lambda>ch. ch \<noteq> dot) (drop (nat (sepIndex + 1)) (take (nat dotIndex) p))
      then (take (nat dotIndex) p, drop (nat dotIndex) p)
      else (p, []))"

text \<open>\<open>join(a, b)\<close> with one component \<open>b\<close>.\<close>

definition join :: "ustr \<Rightarrow> ustr \<Rightarrow> ustr" where
  "join a b =
     (if startswith b [slash] then b
      else if a = [] \<or> endswith a [slash] then a @ b
      else a @ [slash] @ b)"

section \<open>Utility functions\<close>

subsection \<open>\<open>ascii_filename\<close>\<close>

text \<open>
  \<open>s.encode("ASCII", "ignore")\<close> drops every code point that has no ASCII encoding;
  \<open>b.decode("ASCII")\<close> raises on a byte above 127.
\<close>

definition encode_ascii_ignore :: "ustr \<Rightarrow> bytes" where
  "encode_ascii_ignore s = map of_nat (filter (\<lambda>c. c < 128) s)"

definition decode_ascii :: "bytes \<Rightarrow> exn + ustr" where
  "decode_ascii b =
     (if list_all (\<lambda>x. x < 128) b then Inr (map unat b)
      else Inl (UnicodeDecodeError (str ''ordinal not in range(128)'')))"

text \<open>The character class \<open>[A-Za-z0-9._-]\<close> and \<open>re.sub(r"[^A-Za-z0-9._-]", "_", s)\<close>.\<close>

definition in_class :: "nat \<Rightarrow> bool" where
  "in_class c =
     ((65 \<le> c \<and> c \<le> 90) \<or> (97 \<le> c \<and> c \<le> 122) \<or> (48 \<le> c \<and> c \<le> 57)
      \<or> c = dot \<or> c = underscore \<or> c = 45)"

fun re_sub :: "ustr \<Rightarrow> ustr" where
  "re_sub [] = []"
| "re_sub (c # cs) = (if in_class c then c else underscore) # re_sub cs"

definition ascii_filename :: "pylib \<Rightarrow> ustr \<Rightarrow> exn + ustr" where
  "ascii_filename L filename =
     (let nfkd = normalize_NFKD L filename in
      case decode_ascii (encode_ascii_ignore nfkd) of
        Inl e \<Rightarrow> Inl e
      | Inr only_ascii \<Rightarrow> Inr (re_sub only_ascii))"

subsection \<open>\<open>safe_stem\<close>\<close>

definition safe_stem :: "pylib \<Rightarrow> ustr \<Rightarrow> exn + ustr" where
  "safe_stem L filename =
     (let stem = fst (splitext (basename filename)) in
      case ascii_filename L stem of
        Inl e \<Rightarrow> Inl e
      | Inr sanitized \<Rightarrow> Inr (if sanitized \<noteq> [] then sanitized else str ''file''))"

subsection \<open>A fragment of the Unicode tables, for concrete inputs\<close>

text \<open>
  \<open>nfkd_fragment\<close> agrees with \<open>unicodedata.normalize("NFKD", _)\<close> on strings made of ASCII
  characters, of U+00E9 (e with acute, decomposed into \<open>e\<close> and the combining acute accent
  U+0301) and of U+4E2D (a CJK ideograph, which has no decomposition); \<open>ascii_lower\<close> agrees
  with \<open>str.lower\<close> on ASCII strings.
\<close>

fun decompose :: "nat \<Rightarrow> ustr" where
  "decompose c = (if c = 233 then [101, 769] else [c])"

definition nfkd_fragment :: "ustr \<Rightarrow> ustr" where
  "nfkd_fragment s = concat (map decompose s)"

definition ascii_lower :: "ustr \<Rightarrow> ustr" where
  "ascii_lower s = map (\<lambda>c. if 65 \<le> c \<and> c \<le> 90 then c + 32 else c) s"

fun sample_oserror_str :: "os_err \<Rightarrow> ustr" where
  "sample_oserror_str (EISDIR p) = str ''Is a directory''"
| "sample_oserror_str (EEXIST p) = str ''File exists''"
| "sample_oserror_str (ENOENT p) = str ''No such file or directory''"
| "sample_oserror_str (ENAMETOOLONG p) = str ''File name too long''"

definition sample_lib :: pylib where
  "sample_lib = \<lparr> normalize_NFKD = nfkd_fragment, str_lower = ascii_lower,
                  oserror_str = sample_oserror_str \<rparr>"

section \<open>Identifiers, uploads and the file system\<close>

subsection \<open>\<open>uuid.uuid4().hex\<close>\<close>

text \<open>
  A UUID is a 128-bit integer; \<open>.hex\<close> prints it as 32 lower-case hexadecimal digits,
  most significant first. The random choice of \<open>uuid4()\<close> is an argument of every
  function that draws one.
\<close>

type_synonym uuid = "128 word"

definition hexdigit :: "nat \<Rightarrow> nat" where
  "hexdigit d = (if d < 10 then 48 + d else 87 + d)"

fun hex_digits :: "nat \<Rightarrow> nat \<Rightarrow> ustr" where
  "hex_digits 0 n = []"
| "hex_digits (Suc k) n = hex_digits k (n div 16) @ [hexdigit (n mod 16)]"

definition uuid_hex :: "uuid \<Rightarrow> ustr" where
  "uuid_hex u = hex_digits 32 (unat u)"

subsection \<open>Decimal formatting of \<open>f"{n}"\<close>\<close>

function dec :: "nat \<Rightarrow> ustr" where
  "dec n = (if n < 10 then [48 + n] else dec (n div 10) @ [48 + n mod 10])"
  by pat_completeness auto
termination
  by (relation "measure id") auto

subsection \<open>\<open>UploadFile\<close>\<close>

text \<open>
  An upload is its file name, its payload and a read cursor. \<open>read(n)\<close> returns at most
  \<open>n\<close> bytes from the cursor and advances it; \<open>seek(offset)\<close> sets it. The stream also
  keeps the history of its \<open>read\<close> calls, as the list of the byte strings they returned,
  oldest first: this is what makes the size and the number of the reads of a caller
  observable in the state the caller leaves.
\<close>

record upload_file =
  filename :: ustr
  data :: bytes
  pos :: nat
  read_log :: "bytes list"

definition upload_read :: "upload_file \<Rightarrow> nat \<Rightarrow> bytes \<times> upload_file" where
  "upload_read u n =
     (let chunk = take n (drop (pos u) (data u))
      in (chunk, u\<lparr>pos := pos u + length chunk, read_log := read_log u @ [chunk]\<rparr>))"

definition upload_seek :: "upload_file \<Rightarrow> nat \<Rightarrow> upload_file" where
  "upload_seek u offset = u\<lparr>pos := offset\<rparr>"

subsection \<open>Files and directories\<close>

text \<open>
  The file system maps a path to a regular file with its contents, or to a directory.
  The operations fail as Linux does when a path names the wrong kind of node, and when
  a name is too long: a path component of more than \<open>NAME_MAX = 255\<close> bytes, or a path of
  \<open>PATH_MAX = 4096\<close> bytes or more, gives \<open>ENAMETOOLONG\<close>.
  Python passes a path to the system in UTF-8, so the length that counts is the number
  of bytes of the UTF-8 encoding. Strings are taken to consist of Unicode scalar values.
  Missing parent directories, permissions and full disks are not modelled.
\<close>

datatype node = File bytes | Dir

type_synonym fs = "ustr \<Rightarrow> node option"

definition utf8_len :: "nat \<Rightarrow> nat" where
  "utf8_len c = (if c < 128 then 1 else if c < 2048 then 2 else if c < 65536 then 3 else 4)"

definition NAME_MAX :: nat where "NAME_MAX = 255"
definition PATH_MAX :: nat where "PATH_MAX = 4096"

text \<open>
  \<open>component_too_long k p\<close>: some component of \<open>p\<close> has more than \<open>NAME_MAX\<close> bytes, where
  the first component of \<open>p\<close> continues a component of which \<open>k\<close> bytes have been seen.
\<close>

fun component_too_long :: "nat \<Rightarrow> ustr \<Rightarrow> bool" where
  "component_too_long k [] = (NAME_MAX < k)"
| "component_too_long k (c # cs) =
     (if c = slash then NAME_MAX < k \<or> component_too_long 0 cs
      else component_too_long (k + utf8_len c) cs)"

definition name_too_long :: "ustr \<Rightarrow> bool" where
  "name_too_long p = (component_too_long 0 p \<or> PATH_MAX \<le> sum_list (map utf8_len p))"

text \<open>
  \<open>os.path.exists\<close>, \<open>isdir\<close> and \<open>isfile\<close> call \<open>stat\<close> and answer \<open>False\<close> when it fails.
\<close>

definition os_path_exists :: "fs \<Rightarrow> ustr \<Rightarrow> bool" where
  "os_path_exists fs p = (\<not> name_too_long p \<and> fs p \<noteq> None)"



definition os_remove :: "fs \<Rightarrow> ustr \<Rightarrow> exn + fs" where
  "os_remove fs p =
     (if name_too_long p then Inl (OSError (ENAMETOOLONG p))
      else case fs p of
        None \<Rightarrow> Inl (OSError (ENOENT p))
      | Some Dir \<Rightarrow> Inl (OSError (EISDIR p))
      | Some (File b) \<Rightarrow> Inr (fs(p := None)))"

text \<open>
  Opening a file for writing and writing \<open>b\<close> to it. The libraries that write a file
  (\<open>pix.save\<close>, \<open>ZipFile\<close>, the spreadsheet and document writers) are modelled by the same
  operation; what they do when the target is an existing directory is their own, and
  the theorems about them assume that the target is not one.
\<close>

definition write_file :: "fs \<Rightarrow> ustr \<Rightarrow> bytes \<Rightarrow> exn + fs" where
  "write_file fs p b =
     (if name_too_long p then Inl (OSError (ENAMETOOLONG p))
      else case fs p of
        Some Dir \<Rightarrow> Inl (OSError (EISDIR p))
      | _ \<Rightarrow> Inr (fs(p \<mapsto> File b)))"

text \<open>\<open>open(p, "wb")\<close> succeeds: the name fits and is not the name of a directory.\<close>

definition writable :: "fs \<Rightarrow> ustr \<Rightarrow> bool" where
  "writable fs p = (\<not> name_too_long p \<and> fs p \<noteq> Some Dir)"

definition read_file :: "fs \<Rightarrow> ustr \<Rightarrow> exn + bytes" where
  "read_file fs p =
     (if name_too_long p then Inl (OSError (ENAMETOOLONG p))
      else case fs p of
        None \<Rightarrow> Inl (OSError (ENOENT p))
      | Some Dir \<Rightarrow> Inl (OSError (EISDIR p))
      | Some (File b) \<Rightarrow> Inr b)"

text \<open>\<open>os.makedirs(p, exist_ok=True)\<close>, for a path whose parent exists.\<close>

definition os_makedirs :: "fs \<Rightarrow> ustr \<Rightarrow> exn + fs" where
  "os_makedirs fs p =
     (if name_too_long p then Inl (OSError (ENAMETOOLONG p))
      else case fs p of
        Some (File b) \<Rightarrow> Inl (OSError (EEXIST p))
      | _ \<Rightarrow> Inr (fs(p \<mapsto> Dir)))"

text \<open>
  \<open>shutil.rmtree(d, ignore_errors=True)\<close>: a directory goes with everything below it;
  on anything else the error is ignored and nothing changes.
\<close>

definition shutil_rmtree :: "fs \<Rightarrow> ustr \<Rightarrow> fs" where
  "shutil_rmtree fs d =
     (if name_too_long d then fs
      else case fs d of
        Some Dir \<Rightarrow> (\<lambda>q. if q = d \<or> startswith q (d @ [slash]) then None else fs q)
      | _ \<Rightarrow> fs)"

text \<open>The idiom \<open>if os.path.exists(p): os.remove(p)\<close>.\<close>

definition remove_if_exists :: "fs \<Rightarrow> ustr \<Rightarrow> exn + fs" where
  "remove_if_exists fs p = (if os_path_exists fs p then os_remove fs p else Inr fs)"

subsection \<open>Constants\<close>

definition DOWNLOAD_FOLDER :: ustr where "DOWNLOAD_FOLDER = str ''downloads''"
definition PDF_DOWNLOAD_FOLDER :: ustr where "PDF_DOWNLOAD_FOLDER = str ''pdf_uploads''"
definition EXCEL_DOWNLOAD_FOLDER :: ustr where "EXCEL_DOWNLOAD_FOLDER = str ''excel_outputs''"
definition WORD_DOWNLOAD_FOLDER :: ustr where "WORD_DOWNLOAD_FOLDER = str ''word_outputs''"
definition IMAGE_DOWNLOAD_FOLDER :: ustr where "IMAGE_DOWNLOAD_FOLDER = str ''image_outputs''"

definition CHUNK_SIZE :: nat where
  "CHUNK_SIZE = 1024 * 1024"

subsection \<open>\<open>delete_file_later\<close>\<close>

text \<open>
  The state of the service is the file system and the deletion threads that have been
  started and have not yet run, each with its path and its delay in seconds.
  \<open>delete_file_later\<close> starts a thread and returns. \<open>fire i\<close> is the moment the \<open>i\<close>-th
  thread wakes up: it runs the body of \<open>delete\<close> after the \<open>sleep\<close> and the thread ends,
  whether the body raised or not.
\<close>

record world =
  files :: fs
  pending :: "(ustr \<times> nat) list"

definition delete_file_later :: "ustr \<Rightarrow> nat \<Rightarrow> world \<Rightarrow> world" where
  "delete_file_later file_path delay w = w\<lparr>pending := pending w @ [(file_path, delay)]\<rparr>"

definition fire :: "nat \<Rightarrow> world \<Rightarrow> exn option \<times> world" where
  "fire i w =
     (if i < length (pending w) then
        (let file_path = fst (pending w ! i);
             others = take i (pending w) @ drop (Suc i) (pending w)
         in case remove_if_exists (files w) file_path of
              Inl e \<Rightarrow> (Some e, w\<lparr>pending := others\<rparr>)
            | Inr fs' \<Rightarrow> (None, \<lparr>files = fs', pending = others\<rparr>))
      else (None, w))"

subsection \<open>\<open>save_upload_file\<close>\<close>

text \<open>
  The loop \<open>while True: chunk = read(n); if not chunk: break; buffer.write(chunk)\<close>.
  \<open>buffer\<close> is the list of the chunks written so far, in order; the file holds their
  concatenation.
\<close>

function copy_loop :: "nat \<Rightarrow> upload_file \<Rightarrow> bytes list \<Rightarrow> upload_file \<times> bytes list" where
  "copy_loop n u buffer =
     (let (chunk, u') = upload_read u n
      in if chunk = [] then (u', buffer) else copy_loop n u' (buffer @ [chunk]))"
  by pat_completeness auto
termination
  by (relation "measure (\<lambda>(n, u, buffer). length (data u) - pos u)")
     (auto simp: upload_read_def Let_def)

text \<open>
  What the claim about chunked copying says in words: a payload cut into pieces of \<open>n\<close>
  bytes, the last one possibly shorter. It is used to state what \<open>save_upload_file\<close>
  read; the program itself is \<open>copy_loop\<close>.
\<close>

function chunks_of :: "nat \<Rightarrow> bytes \<Rightarrow> bytes list" where
  "chunks_of n xs =
     (if n = 0 \<or> xs = [] then [] else take n xs # chunks_of n (drop n xs))"
  by pat_completeness auto
termination
  by (relation "measure (\<lambda>(n, xs). length xs)") auto

text \<open>The first three lines of \<open>save_upload_file\<close>: the name of the destination.\<close>

definition unique_file_path :: "pylib \<Rightarrow> uuid \<Rightarrow> ustr \<Rightarrow> ustr \<Rightarrow> ustr" where
  "unique_file_path L uid name destination_folder =
     (let ext = snd (splitext name);
          unique_name = uuid_hex uid @ (if ext \<noteq> [] then str_lower L ext else [])
      in join destination_folder unique_name)"

definition save_upload_file ::
  "pylib \<Rightarrow> uuid \<Rightarrow> upload_file \<Rightarrow> ustr \<Rightarrow> fs \<Rightarrow> (exn + ustr) \<times> upload_file \<times> fs" where
  "save_upload_file L uid upload_file destination_folder fs =
     (let file_path = unique_file_path L uid (filename upload_file) destination_folder
      in case write_file fs file_path [] of
           Inl e \<Rightarrow> (Inl e, upload_file, fs)
         | Inr fs1 \<Rightarrow>
             (let (u1, buffer) = copy_loop CHUNK_SIZE upload_file [];
                  u2 = upload_seek u1 0
              in (Inr file_path, u2, fs1(file_path \<mapsto> File (concat buffer)))))"

section \<open>Conversions\<close>

subsection \<open>The conversion libraries\<close>

text \<open>
  The libraries decode and encode documents; what they compute is a parameter of the
  model. A page of \<open>pdfplumber\<close> is given by what its \<open>extract_table()\<close> returns
  (an exception, \<open>None\<close>, or the rows of a table); a page of \<open>fitz\<close> by the PNG bytes
  that \<open>get_pixmap()\<close> and \<open>save\<close> produce, or the exception they raise. A writer returns
  the exception it raised, if any, and what it left in the output file, if anything: a
  failed conversion may leave a partial file behind.
\<close>

type_synonym cell = "ustr option"
type_synonym table = "cell list list"

datatype dataframe = DataFrame (df_data: "cell list list") (df_columns: "cell list")
datatype plumber_page = PlumberPage (extract_table: "exn + table option")
datatype fitz_page = FitzPage (get_pixmap: "exn + bytes")

record pdflib =
  pdfplumber_open :: "bytes \<Rightarrow> exn + plumber_page list"
  pd_DataFrame :: "cell list list \<Rightarrow> cell list \<Rightarrow> exn option"
  ExcelWriter_write :: "(ustr \<times> dataframe) list \<Rightarrow> exn option \<times> bytes option"
  Converter_init :: "bytes \<Rightarrow> exn option"
  Converter_convert :: "bytes \<Rightarrow> exn option \<times> bytes option"
  Converter_close :: "bytes \<Rightarrow> exn option"
  fitz_open :: "bytes \<Rightarrow> exn + fitz_page list"
  zip_encode :: "(ustr \<times> bytes) list \<Rightarrow> bytes"


subsection \<open>\<open>convert_pdf_tables_to_excel\<close>\<close>




subsection \<open>\<open>convert_pdf_to_docx\<close>\<close>


subsection \<open>\<open>create_images_zip\<close>\<close>

text \<open>The path of the image of the page with index \<open>page_index\<close>.\<close>

definition page_image_path :: "ustr \<Rightarrow> ustr \<Rightarrow> nat \<Rightarrow> ustr" where
  "page_image_path session_folder base_name page_index =
     join session_folder (base_name @ str ''_page_'' @ dec (page_index + 1) @ str ''.png'')"

text \<open>The loop over \<open>range(doc.page_count)\<close>, from page \<open>page_index\<close> on.\<close>

fun save_pages ::
  "fitz_page list \<Rightarrow> nat \<Rightarrow> ustr \<Rightarrow> ustr \<Rightarrow> fs \<Rightarrow> ustr list \<Rightarrow> (exn + ustr list) \<times> fs" where
  "save_pages [] page_index session_folder base_name fs image_paths = (Inr image_paths, fs)"
| "save_pages (page # pages) page_index session_folder base_name fs image_paths =
     (case get_pixmap page of
        Inl e \<Rightarrow> (Inl e, fs)
      | Inr pix \<Rightarrow>
          (case write_file fs (page_image_path session_folder base_name page_index) pix of
             Inl e \<Rightarrow> (Inl e, fs)
           | Inr fs' \<Rightarrow>
               save_pages pages (page_index + 1) session_folder base_name fs'
                 (image_paths @ [page_image_path session_folder base_name page_index])))"

text \<open>
  The loop \<open>zip_file.write(image_path, arcname=os.path.basename(image_path))\<close>; the
  entries written before an exception stay in the archive.
\<close>

fun zip_write_all ::
  "ustr list \<Rightarrow> fs \<Rightarrow> (ustr \<times> bytes) list \<Rightarrow> exn option \<times> (ustr \<times> bytes) list" where
  "zip_write_all [] fs entries = (None, entries)"
| "zip_write_all (image_path # rest) fs entries =
     (case read_file fs image_path of
        Inl e \<Rightarrow> (Some e, entries)
      | Inr b \<Rightarrow> zip_write_all rest fs (entries @ [(basename image_path, b)]))"

definition create_images_zip ::
  "pdflib \<Rightarrow> fs \<Rightarrow> ustr \<Rightarrow> ustr \<Rightarrow> ustr \<Rightarrow> ustr \<Rightarrow> exn option \<times> fs" where
  "create_images_zip P fs pdf_path session_folder zip_path base_name =
     (case read_file fs pdf_path of
        Inl e \<Rightarrow> (Some e, fs)
      | Inr b \<Rightarrow>
     (case fitz_open P b of
        Inl e \<Rightarrow> (Some e, fs)
      | Inr doc \<Rightarrow>
          if length doc = 0 then (Some (ValueError (str ''No pages found in PDF.'')), fs)
          else
     (case save_pages doc 0 session_folder base_name fs [] of
        (Inl e, fs1) \<Rightarrow> (Some e, fs1)
      | (Inr image_paths, fs1) \<Rightarrow>
     (case write_file fs1 zip_path (zip_encode P []) of
        Inl e \<Rightarrow> (Some e, fs1)
      | Inr fs2 \<Rightarrow>
          (let (r, entries) = zip_write_all image_paths fs2 []
           in (r, fs2(zip_path \<mapsto> File (zip_encode P entries))))))))"

subsection \<open>\<open>download_video\<close>\<close>

text \<open>
  \<open>yt_dlp\<close> is a parameter: \<open>extract_info\<close> downloads (it changes the file system) and
  returns the metadata, \<open>prepare_filename\<close> computes the name of the file from them.
\<close>

datatype optval = OptStr ustr | OptBool bool | OptNat nat

type_synonym ydl_opts = "string \<Rightarrow> optval option"
type_synonym info = "(ustr \<times> ustr) list"

record ytlib =
  extract_info :: "ydl_opts \<Rightarrow> ustr \<Rightarrow> fs \<Rightarrow> (exn + info) \<times> fs"
  prepare_filename :: "ydl_opts \<Rightarrow> info \<Rightarrow> ustr"

text \<open>The dictionary \<open>ydl_opts\<close>, after \<open>ydl_opts.update(custom_options)\<close>.\<close>

definition ydl_options :: "ustr \<Rightarrow> ydl_opts option \<Rightarrow> ydl_opts" where
  "ydl_options output_template custom_options =
     (let ydl_opts =
            [''format'' \<mapsto> OptStr (str ''bestvideo[ext=mp4]+bestaudio[ext=m4a]/best[ext=mp4]''),
             ''outtmpl'' \<mapsto> OptStr output_template,
             ''merge_output_format'' \<mapsto> OptStr (str ''mp4''),
             ''noplaylist'' \<mapsto> OptBool True,
             ''quiet'' \<mapsto> OptBool True]
      in case custom_options of None \<Rightarrow> ydl_opts | Some c \<Rightarrow> ydl_opts ++ c)"

definition download_video ::
  "pylib \<Rightarrow> ytlib \<Rightarrow> ustr \<Rightarrow> ustr \<Rightarrow> ydl_opts option \<Rightarrow> fs \<Rightarrow> (exn + ustr) \<times> fs" where
  "download_video L Y url output_template custom_options fs =
     (let ydl_opts = ydl_options output_template custom_options
      in case extract_info Y ydl_opts url fs of
           (Inl e, fs') \<Rightarrow> (Inl e, fs')
         | (Inr info, fs') \<Rightarrow>
             (let filename0 = prepare_filename Y ydl_opts info;
                  filename1 =
                    (if \<not> endswith (str_lower L filename0) (str ''.mp4'')
                     then fst (splitext filename0) @ str ''.mp4'' else filename0)
              in if \<not> os_path_exists fs' filename1
                 then (Inl (FileNotFoundError (str ''Failed to download video.'')), fs')
                 else (Inr filename1, fs')))"

text \<open>
  A sample downloader: it reports the name \<open>reported\<close> and leaves an empty file at
  \<open>stored\<close>.
\<close>

definition sample_ytlib :: "ustr \<Rightarrow> ustr \<Rightarrow> ytlib" where
  "sample_ytlib reported stored =
     \<lparr> extract_info = (\<lambda>opts url fs. (Inr [], fs(stored \<mapsto> File []))),
       prepare_filename = (\<lambda>opts info. reported) \<rparr>"

section \<open>Endpoints\<close>

text \<open>
  A handler returns a JSON body \<open>{"error": message}\<close> or a \<open>FileResponse\<close>, or it raises.
  It takes the UUIDs it draws as arguments, and returns the upload (whose cursor moved)
  and the new state.
\<close>

datatype response =
    ErrorBody ustr
  | FileResponse (resp_path: ustr) (resp_filename: ustr) (resp_headers: "(ustr \<times> ustr) list")

definition content_disposition :: "ustr \<Rightarrow> (ustr \<times> ustr) list" where
  "content_disposition safe_filename =
     [(str ''Content-Disposition'',
       str ''attachment; filename='' @ [34] @ safe_filename @ [34])]"

text \<open>The last three lines of every handler.\<close>

definition respond_file :: "pylib \<Rightarrow> ustr \<Rightarrow> exn + response" where
  "respond_file L path =
     (case ascii_filename L (basename path) of
        Inl e \<Rightarrow> Inl e
      | Inr safe_filename \<Rightarrow>
          Inr (FileResponse path safe_filename (content_disposition safe_filename)))"

subsection \<open>\<open>/pdf/to-excel\<close>\<close>


subsection \<open>\<open>/pdf/to-word\<close>\<close>


subsection \<open>\<open>/pdf/to-image\<close>\<close>

definition pdf_to_image ::
  "pylib \<Rightarrow> pdflib \<Rightarrow> uuid \<Rightarrow> uuid \<Rightarrow> upload_file \<Rightarrow> world
     \<Rightarrow> (exn + response) \<times> upload_file \<times> world" where
  "pdf_to_image L P uid1 uid2 file w =
     (if \<not> endswith (str_lower L (filename file)) (str ''.pdf'')
      then (Inr (ErrorBody (str ''Please upload a PDF file.'')), file, w)
      else
     (case save_upload_file L uid1 file PDF_DOWNLOAD_FOLDER (files w) of
        (Inl e, file1, fs1) \<Rightarrow> (Inl e, file1, w\<lparr>files := fs1\<rparr>)
      | (Inr pdf_path, file1, fs1) \<Rightarrow>
     (case safe_stem L (filename file) of
        Inl e \<Rightarrow> (Inl e, file1, w\<lparr>files := fs1\<rparr>)
      | Inr base_name \<Rightarrow>
          (let unique_id = uuid_hex uid2;
               session_folder = join IMAGE_DOWNLOAD_FOLDER (base_name @ str ''_'' @ unique_id);
               zip_path =
                 join IMAGE_DOWNLOAD_FOLDER (base_name @ str ''_'' @ unique_id @ str ''.zip'')
           in case os_makedirs fs1 session_folder of
                Inl e \<Rightarrow> (Inl e, file1, w\<lparr>files := fs1\<rparr>)
              | Inr fs1' \<Rightarrow>
          (case create_images_zip P fs1' pdf_path session_folder zip_path base_name of
             (Some e, fs2) \<Rightarrow>
               (let fs2' = shutil_rmtree fs2 session_folder
                in case remove_if_exists fs2' zip_path of
                     Inl e' \<Rightarrow> (Inl e', file1, w\<lparr>files := fs2'\<rparr>)
                   | Inr fs3 \<Rightarrow>
                       (Inr (ErrorBody
                          (if isinstance_ValueError e then exn_str L e
                           else str ''Failed to convert PDF: '' @ exn_str L e)),
                        file1, delete_file_later pdf_path 300 (w\<lparr>files := fs3\<rparr>)))
           | (None, fs2) \<Rightarrow>
               (let fs2' = shutil_rmtree fs2 session_folder;
                    w1 = delete_file_later pdf_path 300 (w\<lparr>files := fs2'\<rparr>);
                    w2 = delete_file_later zip_path 600 w1
                in (respond_file L zip_path, file1, w2)))))))"

subsection \<open>Sample libraries, for concrete inputs\<close>

text \<open>
  A PDF library that finds the given pages in every document, an Excel writer that
  succeeds with an empty file, a document converter that fails and leaves one byte
  behind, and an archive format that stores names and contents one after the other.
\<close>

definition sample_pdflib :: "fitz_page list \<Rightarrow> plumber_page list \<Rightarrow> pdflib" where
  "sample_pdflib fpages ppages =
     \<lparr> pdfplumber_open = (\<lambda>b. Inr ppages),
       pd_DataFrame = (\<lambda>rows header. None),
       ExcelWriter_write = (\<lambda>sheets. (None, Some [])),
       Converter_init = (\<lambda>b. None),
       Converter_convert = (\<lambda>b. (Some (LibraryError (str ''broken'')), Some [1])),
       Converter_close = (\<lambda>b. None),
       fitz_open = (\<lambda>b. Inr fpages),
       zip_encode = (\<lambda>entries. concat (map (\<lambda>(name, b). map of_nat name @ b) entries)) \<rparr>"

definition empty_world :: world where
  "empty_world = \<lparr> files = Map.empty, pending = [] \<rparr>"

section \<open>Properties of the sanitizer\<close>

lemma sample_lib_fields:
  "normalize_NFKD sample_lib = nfkd_fragment"
  "str_lower sample_lib = ascii_lower"
  "oserror_str sample_lib = sample_oserror_str"
  by (simp_all add: sample_lib_def)

lemma decode_encode_ascii:
  "decode_ascii (encode_ascii_ignore s) = Inr (filter (\<lambda>c. c < 128) s)"
proof -
  have small: "\<And>c. c < (128::nat) \<Longrightarrow> (of_nat c :: 8 word) < 128 \<and> unat (of_nat c :: 8 word) = c"
  proof -
    fix c :: nat
    assume c: "c < 128"
    then have u: "unat (of_nat c :: 8 word) = c"
      by (simp add: unat_of_nat)
    then have "unat (of_nat c :: 8 word) < unat (128 :: 8 word)"
      using c by simp
    then show "(of_nat c :: 8 word) < 128 \<and> unat (of_nat c :: 8 word) = c"
      using u by (simp add: word_less_nat_alt)
  qed
  have all: "list_all (\<lambda>x. x < 128) (encode_ascii_ignore s)"
    unfolding encode_ascii_ignore_def list_all_iff using small by auto
  have round: "map unat (encode_ascii_ignore s) = filter (\<lambda>c. c < 128) s"
    unfolding encode_ascii_ignore_def using small by (induction s) auto
  show ?thesis
    unfolding decode_ascii_def using all round by simp
qed

lemma ascii_filename_value:
  "ascii_filename L s = Inr (re_sub (filter (\<lambda>c. c < 128) (normalize_NFKD L s)))"
  by (simp add: ascii_filename_def decode_encode_ascii)

lemma re_sub_in_class: "list_all in_class (re_sub s)"
  by (induction s) (auto simp: in_class_def)

lemma re_sub_length: "length (re_sub s) = length s"
  by (induction s) auto

lemma re_sub_fixed: "list_all in_class s \<Longrightarrow> re_sub s = s"
  by (induction s) auto

lemma in_class_ascii: "in_class c \<Longrightarrow> c < 128"
  by (auto simp: in_class_def dot_def underscore_def)

lemma filter_ascii_in_class: "list_all in_class s \<Longrightarrow> filter (\<lambda>c. c < 128) s = s"
  by (induction s) (auto dest: in_class_ascii)

lemma re_sub_map: "re_sub s = map (\<lambda>c. if in_class c then c else underscore) s"
  by (induction s) auto

lemma nfkd_fragment_in_class: "list_all in_class t \<Longrightarrow> nfkd_fragment t = t"
  by (induction t) (auto simp: nfkd_fragment_def in_class_def dot_def underscore_def)

text \<open>
  Claim C4, as stated, at the input U+00E9: NFKD decomposes it into \<open>e\<close> followed by the
  combining accent U+0301, \<open>encode("ASCII", "ignore")\<close> drops the accent, and the result is
  \<open>e\<close>: the character that has no ASCII form is dropped, not replaced with an underscore.
\<close>

theorem ascii_filename_e_acute_counterexample:
  "ascii_filename sample_lib [233] = Inr (str ''e'') \<and>
   ascii_filename sample_lib [233] \<noteq> Inr (str ''_'')"
  by (simp add: ascii_filename_value sample_lib_fields nfkd_fragment_def str_def in_class_def)

text \<open>
  Claim C4, amended: for every input string \<open>ascii_filename\<close> returns a string made only
  of letters, digits, \<open>.\<close>, \<open>_\<close> and \<open>-\<close>. It is the NFKD-normalised input with every code
  point above 127 dropped and, of what is left, every character outside the set replaced
  with \<open>_\<close>.
\<close>

theorem ascii_filename_charset:
  "ascii_filename L s =
     Inr (map (\<lambda>c. if in_class c then c else underscore)
            (filter (\<lambda>c. c < 128) (normalize_NFKD L s))) \<and>
   list_all in_class
     (map (\<lambda>c. if in_class c then c else underscore)
        (filter (\<lambda>c. c < 128) (normalize_NFKD L s)))"
  using re_sub_in_class [of "filter (\<lambda>c. c < 128) (normalize_NFKD L s)"]
  by (simp add: ascii_filename_value re_sub_map)

theorem ascii_filename_charset_witness:
  "ascii_filename sample_lib (str ''a b'' @ [233, 20013]) = Inr (str ''a_be'')"
  using ascii_filename_charset [of sample_lib "str ''a b'' @ [233, 20013]"]
  by (simp add: sample_lib_fields nfkd_fragment_def str_def in_class_def underscore_def dot_def)

text \<open>
  Claim C5, as stated, says that the sanitizer never returns the empty string. The
  sanitizer of the response paths, \<open>ascii_filename\<close>, has no fallback: for U+4E2D, a CJK
  ideograph without decomposition, every code point is dropped and the result is the
  empty string, not a placeholder; the same holds for the empty input.
\<close>

theorem ascii_filename_empty_counterexample:
  "ascii_filename sample_lib [20013] = Inr [] \<and>
   ascii_filename sample_lib [] = Inr [] \<and>
   ascii_filename sample_lib [20013] \<noteq> Inr (str ''file'')"
  by (simp add: ascii_filename_value sample_lib_fields nfkd_fragment_def str_def)

text \<open>
  Claim C5, amended: the sanitizer never fails. \<open>ascii_filename\<close> returns a value on every
  input (the \<open>decode\<close> step cannot raise after the \<open>encode\<close> step), and that value is the
  empty string exactly when NFKD normalisation leaves no ASCII code point. The fallback
  is \<open>safe_stem\<close>'s: it sanitizes the stem of a file name with \<open>ascii_filename\<close> and returns
  the sanitized stem when it is not empty and the placeholder \<open>file\<close> when sanitization
  stripped every character, so \<open>safe_stem\<close> never returns the empty string.
\<close>

theorem safe_stem_never_empty:
  "ascii_filename L name = Inr (re_sub (filter (\<lambda>c. c < 128) (normalize_NFKD L name))) \<and>
   (ascii_filename L name = Inr [] \<longleftrightarrow> filter (\<lambda>c. c < 128) (normalize_NFKD L name) = []) \<and>
   (let stem = fst (splitext (basename name));
        sanitized = re_sub (filter (\<lambda>c. c < 128) (normalize_NFKD L stem))
    in ascii_filename L stem = Inr sanitized \<and>
       safe_stem L name = Inr (if sanitized = [] then str ''file'' else sanitized) \<and>
       safe_stem L name \<noteq> Inr [])"
proof -
  have "re_sub t = [] \<longleftrightarrow> t = []" for t
    by (cases t) simp_all
  then show ?thesis
    by (simp add: safe_stem_def ascii_filename_value Let_def str_def)
qed

theorem safe_stem_never_empty_witness:
  "safe_stem sample_lib ([20013] @ str ''.pdf'') = Inr (str ''file'') \<and>
   safe_stem sample_lib (str ''dir/report.v2.pdf'') = Inr (str ''report.v2'') \<and>
   ascii_filename sample_lib (str ''dir/report.v2.pdf'') = Inr (str ''dir_report.v2.pdf'')"
  using safe_stem_never_empty [of sample_lib "[20013] @ str ''.pdf''"]
        safe_stem_never_empty [of sample_lib "str ''dir/report.v2.pdf''"]
  by (simp add: sample_lib_fields nfkd_fragment_def str_def in_class_def underscore_def dot_def
      slash_def basename_def splitext_def Let_def)

text \<open>
  Claim C10: \<open>ascii_filename\<close> is idempotent. NFKD normalisation is a parameter of the
  model; the one fact about it that is used is that it leaves a string over
  \<open>[A-Za-z0-9._-]\<close> unchanged (ASCII characters have no decomposition).
\<close>

theorem ascii_filename_idempotent:
  assumes nfkd_ascii: "\<And>t. list_all in_class t \<Longrightarrow> normalize_NFKD L t = t"
  shows "\<exists>t. ascii_filename L s = Inr t \<and> ascii_filename L t = Inr t"
proof -
  let ?t = "re_sub (filter (\<lambda>c. c < 128) (normalize_NFKD L s))"
  have cls: "list_all in_class ?t" by (rule re_sub_in_class)
  have "normalize_NFKD L ?t = ?t" using cls by (rule nfkd_ascii)
  then have "ascii_filename L ?t = Inr ?t"
    using cls by (simp add: ascii_filename_value filter_ascii_in_class re_sub_fixed)
  then show ?thesis by (simp add: ascii_filename_value)
qed

theorem ascii_filename_idempotent_witness:
  "ascii_filename sample_lib (str ''r'' @ [233] @ str ''sum e.pdf'') = Inr (str ''resum_e.pdf'') \<and>
   ascii_filename sample_lib (str ''resum_e.pdf'') = Inr (str ''resum_e.pdf'')"
proof -
  have h: "\<And>t. list_all in_class t \<Longrightarrow> normalize_NFKD sample_lib t = t"
    by (simp add: sample_lib_fields nfkd_fragment_in_class)
  have v: "ascii_filename sample_lib (str ''r'' @ [233] @ str ''sum e.pdf'') = Inr (str ''resum_e.pdf'')"
    by (simp add: ascii_filename_value sample_lib_fields nfkd_fragment_def str_def in_class_def
        underscore_def dot_def)
  from ascii_filename_idempotent [of sample_lib "str ''r'' @ [233] @ str ''sum e.pdf''", OF h]
  show ?thesis using v by auto
qed

section \<open>Properties of the upload persister\<close>

declare copy_loop.simps [simp del]

declare chunks_of.simps [simp del]

lemma chunks_of_nil: "chunks_of n [] = []"
  by (subst chunks_of.simps) simp

lemma chunks_of_step:
  "0 < n \<Longrightarrow> xs \<noteq> [] \<Longrightarrow> chunks_of n xs = take n xs # chunks_of n (drop n xs)"
  by (subst chunks_of.simps) simp

lemma chunks_of_short: "0 < n \<Longrightarrow> xs \<noteq> [] \<Longrightarrow> length xs \<le> n \<Longrightarrow> chunks_of n xs = [xs]"
  by (simp add: chunks_of_step chunks_of_nil)

lemma upload_read_fst: "fst (upload_read u n) = take n (drop (pos u) (data u))"
  by (simp add: upload_read_def Let_def)

lemma upload_read_snd:
  "data (snd (upload_read u n)) = data u"
  "filename (snd (upload_read u n)) = filename u"
  "pos (snd (upload_read u n)) = pos u + length (fst (upload_read u n))"
  "read_log (snd (upload_read u n)) = read_log u @ [fst (upload_read u n)]"
  by (simp_all add: upload_read_def Let_def)

lemma copy_loop_stop:
  "fst (upload_read u n) = [] \<Longrightarrow> copy_loop n u buf = (snd (upload_read u n), buf)"
  by (subst copy_loop.simps) (simp add: split_def Let_def)

lemma copy_loop_step:
  "fst (upload_read u n) \<noteq> [] \<Longrightarrow>
   copy_loop n u buf = copy_loop n (snd (upload_read u n)) (buf @ [fst (upload_read u n)])"
  by (subst copy_loop.simps) (simp add: split_def Let_def)

lemma copy_loop_cases [consumes 0, case_names stop step]:
  assumes "\<And>n u buf. fst (upload_read u n) = [] \<Longrightarrow> Q n u buf"
    and "\<And>n u buf. fst (upload_read u n) \<noteq> [] \<Longrightarrow>
           Q n (snd (upload_read u n)) (buf @ [fst (upload_read u n)]) \<Longrightarrow> Q n u buf"
  shows "Q n u buf"
proof (induction n u buf rule: copy_loop.induct)
  case (1 n u buffer)
  show ?case
  proof (cases "fst (upload_read u n) = []")
    case True
    then show ?thesis by (rule assms(1))
  next
    case False
    have "Q n (snd (upload_read u n)) (buffer @ [fst (upload_read u n)])"
      using False by (intro "1.IH" [of "upload_read u n"]) auto
    with False show ?thesis by (rule assms(2))
  qed
qed

lemma take_drop_length_take: "take n xs @ drop (length (take n xs)) xs = xs"
  by (simp add: min_def)

lemma copy_loop_frame:
  "data (fst (copy_loop n u buf)) = data u \<and> filename (fst (copy_loop n u buf)) = filename u"
proof (induction n u buf rule: copy_loop_cases)
  case (stop n u buf)
  then show ?case by (simp add: copy_loop_stop upload_read_snd)
next
  case (step n u buf)
  then show ?case by (simp add: copy_loop_step upload_read_snd)
qed

lemma copy_loop_concat:
  "0 < n \<Longrightarrow> concat (snd (copy_loop n u buf)) = concat buf @ drop (pos u) (data u)"
proof (induction n u buf rule: copy_loop_cases)
  case (stop n u buf)
  then have "drop (pos u) (data u) = []"
    by (simp add: upload_read_fst)
  with stop show ?case by (simp add: copy_loop_stop)
next
  case (step n u buf)
  let ?xs = "drop (pos u) (data u)"
  have "drop (pos u + length (take n ?xs)) (data u) = drop (length (take n ?xs)) ?xs"
    by (simp only: drop_drop add.commute)
  then have "take n ?xs @ drop (pos u + length (take n ?xs)) (data u) = ?xs"
    by (simp only: take_drop_length_take)
  with step show ?case
    by (simp add: copy_loop_step upload_read_snd upload_read_fst del: length_take)
qed

lemma copy_loop_sizes:
  "0 < n \<Longrightarrow> list_all (\<lambda>c. length c = n) buf \<Longrightarrow>
   list_all (\<lambda>c. length c = n) (butlast (snd (copy_loop n u buf))) \<and>
   list_all (\<lambda>c. c \<noteq> [] \<and> length c \<le> n) (snd (copy_loop n u buf))"
proof (induction n u buf rule: copy_loop_cases)
  case (stop n u buf)
  then show ?case
    by (auto simp: copy_loop_stop list_all_iff dest: in_set_butlastD)
next
  case (step n u buf)
  let ?chunk = "fst (upload_read u n)"
  let ?u1 = "snd (upload_read u n)"
  show ?case
  proof (cases "length ?chunk = n")
    case True
    with step show ?thesis by (simp add: copy_loop_step)
  next
    case False
    then have "length (drop (pos u) (data u)) < n"
      by (auto simp: upload_read_fst)
    then have "fst (upload_read ?u1 n) = []"
      by (simp add: upload_read_fst upload_read_snd)
    then have "copy_loop n ?u1 (buf @ [?chunk]) = (snd (upload_read ?u1 n), buf @ [?chunk])"
      by (rule copy_loop_stop)
    moreover have "length ?chunk \<le> n" by (simp add: upload_read_fst)
    ultimately show ?thesis
      using step(1,3,4) by (auto simp add: copy_loop_step list_all_iff)
  qed
qed

lemma drop_length_take: "drop (length (take n xs)) xs = drop n xs"
  by (simp add: min_def)

lemma copy_loop_chunks:
  "0 < n \<Longrightarrow>
   snd (copy_loop n u buf) = buf @ chunks_of n (drop (pos u) (data u)) \<and>
   read_log (fst (copy_loop n u buf)) =
     read_log u @ chunks_of n (drop (pos u) (data u)) @ [[]]"
proof (induction n u buf rule: copy_loop_cases)
  case (stop n u buf)
  then have "drop (pos u) (data u) = []"
    by (simp add: upload_read_fst)
  with stop show ?case
    by (simp add: copy_loop_stop chunks_of_nil upload_read_snd)
next
  case (step n u buf)
  let ?xs = "drop (pos u) (data u)"
  have ne: "?xs \<noteq> []" using step(1) by (auto simp: upload_read_fst)
  have "drop (pos u + length (take n ?xs)) (data u) = drop (length (take n ?xs)) ?xs"
    by (simp only: drop_drop add.commute)
  then have d: "drop (pos u + length (take n ?xs)) (data u) = drop n ?xs"
    by (simp only: drop_length_take)
  have c: "chunks_of n ?xs = take n ?xs # chunks_of n (drop n ?xs)"
    using step(3) ne by (rule chunks_of_step)
  from step(2) [OF step(3)] show ?case
    by (simp add: copy_loop_step [OF step(1)] upload_read_snd upload_read_fst d c
        del: length_take)
qed

lemma length_hex_digits: "length (hex_digits k n) = k"
  by (induction k arbitrary: n) auto

lemma hexdigit_inj: "a < 16 \<Longrightarrow> b < 16 \<Longrightarrow> hexdigit a = hexdigit b \<Longrightarrow> a = b"
  by (auto simp: hexdigit_def split: if_splits)

lemma hex_digits_inj:
  "hex_digits k n = hex_digits k m \<Longrightarrow> n mod 16 ^ k = m mod 16 ^ k"
proof (induction k arbitrary: n m)
  case 0
  then show ?case by simp
next
  case (Suc k)
  from Suc.prems have a: "hex_digits k (n div 16) = hex_digits k (m div 16)"
    and b: "hexdigit (n mod 16) = hexdigit (m mod 16)"
    by simp_all
  have hi: "n div 16 mod 16 ^ k = m div 16 mod 16 ^ k"
    using a by (rule Suc.IH)
  have lo: "n mod 16 = m mod 16"
    by (rule hexdigit_inj [OF _ _ b]) simp_all
  have "n mod 16 ^ Suc k = 16 * (n div 16 mod 16 ^ k) + n mod 16"
    by (simp only: power_Suc mod_mult2_eq)
  also have "\<dots> = 16 * (m div 16 mod 16 ^ k) + m mod 16"
    by (simp only: hi lo)
  also have "\<dots> = m mod 16 ^ Suc k"
    by (simp only: power_Suc mod_mult2_eq)
  finally show ?case .
qed

lemma uuid_hex_length: "length (uuid_hex u) = 32"
  by (simp add: uuid_hex_def length_hex_digits)

lemma uuid_hex_inj: "uuid_hex u = uuid_hex v \<Longrightarrow> u = v"
proof -
  assume "uuid_hex u = uuid_hex v"
  then have "unat u mod 16 ^ 32 = unat v mod 16 ^ 32"
    unfolding uuid_hex_def by (rule hex_digits_inj)
  moreover have "unat u < 16 ^ 32" "unat v < 16 ^ 32"
    using unsigned_less [of u] unsigned_less [of v] by simp_all
  ultimately have "unat u = unat v" by simp
  then show "u = v" by (simp add: word_unat_eq_iff)
qed

lemma hex_digits_in_class: "list_all in_class (hex_digits k n)"
  by (induction k arbitrary: n) (auto simp: hexdigit_def in_class_def)

lemma uuid_hex_in_class: "list_all in_class (uuid_hex u)"
  unfolding uuid_hex_def by (rule hex_digits_in_class)

lemma in_class_not_slash: "in_class c \<Longrightarrow> c \<noteq> slash"
  by (auto simp: in_class_def slash_def dot_def underscore_def)

lemma uuid_hex_not_slash: "\<not> startswith (uuid_hex u @ e) [slash]"
proof -
  obtain c cs where cs: "uuid_hex u = c # cs"
    using uuid_hex_length [of u] by (cases "uuid_hex u") auto
  have "in_class c" using uuid_hex_in_class [of u] cs by simp
  then have "c \<noteq> slash" by (rule in_class_not_slash)
  then show ?thesis using cs by (simp add: startswith_def)
qed

lemma join_inj:
  "\<not> startswith b [slash] \<Longrightarrow> \<not> startswith c [slash] \<Longrightarrow> join a b = join a c \<Longrightarrow> b = c"
  by (auto simp: join_def split: if_splits)

lemma unique_file_path_distinct:
  assumes "uid1 \<noteq> uid2"
  shows "unique_file_path L uid1 name1 root \<noteq> unique_file_path L uid2 name2 root"
proof
  assume eq: "unique_file_path L uid1 name1 root = unique_file_path L uid2 name2 root"
  define e1 where "e1 = (if snd (splitext name1) \<noteq> [] then str_lower L (snd (splitext name1)) else [])"
  define e2 where "e2 = (if snd (splitext name2) \<noteq> [] then str_lower L (snd (splitext name2)) else [])"
  from eq have "join root (uuid_hex uid1 @ e1) = join root (uuid_hex uid2 @ e2)"
    by (simp add: unique_file_path_def Let_def e1_def e2_def)
  then have "uuid_hex uid1 @ e1 = uuid_hex uid2 @ e2"
    using join_inj uuid_hex_not_slash by blast
  then have "uuid_hex uid1 = uuid_hex uid2"
    by (simp add: uuid_hex_length)
  then show False using assms uuid_hex_inj by blast
qed

lemma write_file_ok: "writable fs p \<Longrightarrow> write_file fs p b = Inr (fs(p \<mapsto> File b))"
  by (simp add: write_file_def writable_def split: option.splits node.splits)

lemma save_upload_file_ok:
  assumes "writable fs (unique_file_path L uid (filename u) root)"
  shows "save_upload_file L uid u root fs =
     (Inr (unique_file_path L uid (filename u) root),
      u\<lparr>pos := 0,
        read_log := read_log u @ chunks_of CHUNK_SIZE (drop (pos u) (data u)) @ [[]]\<rparr>,
      fs(unique_file_path L uid (filename u) root \<mapsto> File (drop (pos u) (data u))))"
proof -
  let ?p = "unique_file_path L uid (filename u) root"
  have op: "write_file fs ?p [] = Inr (fs(?p \<mapsto> File []))"
    using assms by (rule write_file_ok)
  have pos0: "0 < CHUNK_SIZE" by (simp add: CHUNK_SIZE_def)
  obtain u1 buffer where cl: "copy_loop CHUNK_SIZE u [] = (u1, buffer)"
    by (cases "copy_loop CHUNK_SIZE u []")
  have "concat buffer = drop (pos u) (data u)"
    using copy_loop_concat [OF pos0, of u "[]"] cl by simp
  moreover have "data u1 = data u" "filename u1 = filename u"
    using copy_loop_frame [of CHUNK_SIZE u "[]"] cl by simp_all
  moreover have "read_log u1 = read_log u @ chunks_of CHUNK_SIZE (drop (pos u) (data u)) @ [[]]"
    using copy_loop_chunks [OF pos0, of u "[]"] cl by simp
  ultimately have "upload_seek u1 0 =
      u\<lparr>pos := 0, read_log := read_log u @ chunks_of CHUNK_SIZE (drop (pos u) (data u)) @ [[]]\<rparr>"
    by (simp add: upload_seek_def)
  with \<open>concat buffer = drop (pos u) (data u)\<close> show ?thesis
    by (simp add: save_upload_file_def Let_def op cl)
qed

lemma save_upload_file_dir:
  assumes "fs (unique_file_path L uid (filename u) root) = Some Dir"
    and "\<not> name_too_long (unique_file_path L uid (filename u) root)"
  shows "save_upload_file L uid u root fs =
     (Inl (OSError (EISDIR (unique_file_path L uid (filename u) root))), u, fs)"
  using assms by (simp add: save_upload_file_def Let_def write_file_def)

lemma save_upload_file_name_too_long:
  assumes "name_too_long (unique_file_path L uid (filename u) root)"
  shows "save_upload_file L uid u root fs =
     (Inl (OSError (ENAMETOOLONG (unique_file_path L uid (filename u) root))), u, fs)"
  using assms by (simp add: save_upload_file_def Let_def write_file_def)

lemma component_fits: "k + sum_list (map utf8_len p) \<le> NAME_MAX \<Longrightarrow> \<not> component_too_long k p"
  by (induction p arbitrary: k) (auto simp: add.assoc)

lemma ascii_bytes: "list_all (\<lambda>c. c < 128) p \<Longrightarrow> sum_list (map utf8_len p) = length p"
  by (induction p) (auto simp: utf8_len_def)

lemma short_ascii_name:
  "list_all (\<lambda>c. c < 128) p \<Longrightarrow> length p \<le> 255 \<Longrightarrow> \<not> name_too_long p"
  using component_fits [of 0 p]
  by (simp add: name_too_long_def ascii_bytes NAME_MAX_def PATH_MAX_def)

lemma uuid_hex_ascii: "list_all (\<lambda>c. c < 128) (uuid_hex u)"
  using uuid_hex_in_class [of u] by (auto simp: list_all_iff in_class_ascii)

lemma hex_digits_zero: "hex_digits k 0 = replicate k 48"
  by (induction k) (simp_all add: hexdigit_def replicate_append_same)

lemma uuid_hex_0: "uuid_hex 0 = replicate 32 48"
  by (simp add: uuid_hex_def hex_digits_zero)

lemma hex_digits_numeral:
  "hex_digits (numeral k) n = hex_digits (pred_numeral k) (n div 16) @ [hexdigit (n mod 16)]"
  by (subst numeral_eq_Suc) (rule hex_digits.simps(2))

lemma uuid_hex_1: "uuid_hex 1 = replicate 31 48 @ [49]"
proof -
  have "hex_digits 32 1 = hex_digits 31 0 @ [hexdigit 1]"
    by (simp add: hex_digits_numeral)
  then show ?thesis
    by (simp add: uuid_hex_def hex_digits_zero hexdigit_def)
qed

lemma splitext_A_PDF: "splitext (str ''A.PDF'') = (str ''A'', str ''.PDF'')"
  by (simp add: splitext_def str_def slash_def dot_def)

lemma join_folder:
  "\<not> startswith b [slash] \<Longrightarrow> a \<noteq> [] \<Longrightarrow> \<not> endswith a [slash] \<Longrightarrow> join a b = a @ [slash] @ b"
  by (simp add: join_def)

lemma sample_path_fits: "\<not> name_too_long (str ''pdf_uploads/'' @ uuid_hex uid @ str ''.pdf'')"
  by (rule short_ascii_name) (simp_all add: uuid_hex_ascii uuid_hex_length, simp_all add: str_def)

lemma sample_path_A_PDF:
  "unique_file_path sample_lib uid (str ''A.PDF'') PDF_DOWNLOAD_FOLDER =
     str ''pdf_uploads/'' @ uuid_hex uid @ str ''.pdf''"
proof -
  have ns: "\<not> startswith (uuid_hex uid @ str ''.pdf'') [slash]"
    by (rule uuid_hex_not_slash)
  have lo: "str_lower sample_lib (str ''.PDF'') = str ''.pdf''"
    by (simp add: sample_lib_fields ascii_lower_def str_def)
  have "unique_file_path sample_lib uid (str ''A.PDF'') PDF_DOWNLOAD_FOLDER =
          join (str ''pdf_uploads'') (uuid_hex uid @ str ''.pdf'')"
    by (simp add: unique_file_path_def splitext_A_PDF lo Let_def PDF_DOWNLOAD_FOLDER_def)
       (simp add: str_def)
  also have "\<dots> = str ''pdf_uploads/'' @ uuid_hex uid @ str ''.pdf''"
    using ns by (simp add: join_def) (simp add: str_def endswith_def slash_def)
  finally show ?thesis .
qed

text \<open>
  Claim C6, as stated, at the file name \<open>A.PDF\<close>: the extension of the upload is \<open>.PDF\<close>,
  and the destination ends in \<open>.pdf\<close>: the extension is lower-cased, not appended unchanged.
\<close>

theorem unique_file_path_upper_counterexample:
  "snd (splitext (str ''A.PDF'')) = str ''.PDF'' \<and>
   unique_file_path sample_lib 0 (str ''A.PDF'') PDF_DOWNLOAD_FOLDER =
     str ''pdf_uploads/'' @ uuid_hex 0 @ str ''.pdf'' \<and>
   unique_file_path sample_lib 0 (str ''A.PDF'') PDF_DOWNLOAD_FOLDER \<noteq>
     str ''pdf_uploads/'' @ uuid_hex 0 @ str ''.PDF''"
proof -
  have "str ''.pdf'' \<noteq> str ''.PDF''" by (simp add: str_def)
  then show ?thesis by (simp add: sample_path_A_PDF splitext_A_PDF)
qed

text \<open>
  Claim C6, amended: the destination of an upload is the folder joined with the 32
  hexadecimal digits of a 128-bit identifier followed by the extension of the upload's
  file name in lower case (nothing when there is no extension), and two uploads persisted
  with distinct identifiers under the same folder never get the same path.
\<close>

theorem unique_file_path_unique:
  assumes "fst (save_upload_file L uid1 u1 root fs1) = Inr p1"
    and "fst (save_upload_file L uid2 u2 root fs2) = Inr p2"
  shows "p1 = join root (uuid_hex uid1 @
                (if snd (splitext (filename u1)) \<noteq> []
                 then str_lower L (snd (splitext (filename u1))) else [])) \<and>
         length (uuid_hex uid1) = 32 \<and>
         (uid1 \<noteq> uid2 \<longrightarrow> p1 \<noteq> p2)"
proof -
  have p1: "p1 = unique_file_path L uid1 (filename u1) root"
    using assms(1) by (simp add: save_upload_file_def Let_def split: sum.splits prod.splits)
  have p2: "p2 = unique_file_path L uid2 (filename u2) root"
    using assms(2) by (simp add: save_upload_file_def Let_def split: sum.splits prod.splits)
  show ?thesis
    using unique_file_path_distinct [of uid1 uid2 L "filename u1" root "filename u2"]
    by (simp add: p1 p2 uuid_hex_length) (simp add: unique_file_path_def Let_def)
qed

theorem unique_file_path_unique_witness:
  "fst (save_upload_file sample_lib 0 \<lparr>filename = str ''A.PDF'', data = [1, 2, 3], pos = 0, read_log = []\<rparr>
          PDF_DOWNLOAD_FOLDER Map.empty) =
     Inr (str ''pdf_uploads/'' @ uuid_hex 0 @ str ''.pdf'') \<and>
   fst (save_upload_file sample_lib 1 \<lparr>filename = str ''A.PDF'', data = [1, 2, 3], pos = 0, read_log = []\<rparr>
          PDF_DOWNLOAD_FOLDER Map.empty) =
     Inr (str ''pdf_uploads/'' @ uuid_hex 1 @ str ''.pdf'') \<and>
   str ''pdf_uploads/'' @ uuid_hex 0 @ str ''.pdf'' \<noteq>
     str ''pdf_uploads/'' @ uuid_hex 1 @ str ''.pdf''"
proof -
  let ?u = "\<lparr>filename = str ''A.PDF'', data = [1, 2, 3], pos = 0, read_log = []\<rparr>"
  have a: "fst (save_upload_file sample_lib 0 ?u PDF_DOWNLOAD_FOLDER Map.empty) =
             Inr (str ''pdf_uploads/'' @ uuid_hex 0 @ str ''.pdf'')"
    by (simp add: save_upload_file_ok sample_path_A_PDF writable_def sample_path_fits)
  have b: "fst (save_upload_file sample_lib 1 ?u PDF_DOWNLOAD_FOLDER Map.empty) =
             Inr (str ''pdf_uploads/'' @ uuid_hex 1 @ str ''.pdf'')"
    by (simp add: save_upload_file_ok sample_path_A_PDF writable_def sample_path_fits)
  have "(0 :: uuid) \<noteq> 1" by simp
  with unique_file_path_unique [OF a b] a b show ?thesis by blast
qed

text \<open>
  Claim C3: when the destination can be opened for writing, \<open>save_upload_file\<close> succeeds
  and leaves the following state. The read history of the upload has grown by the reads
  of this call: the bytes of the upload from the cursor on, cut into chunks in order,
  each chunk non-empty and at most 1 MiB long and every chunk but the last exactly 1 MiB
  long, followed by the one empty read that ends the loop. The destination file holds
  the concatenation of these chunks, which is exactly the bytes of the upload from the
  cursor on (the whole payload for a fresh upload, whose cursor is at 0). The cursor is
  back at 0, and nothing else in the file system has changed.
\<close>

theorem save_upload_file_identical:
  assumes "writable fs (unique_file_path L uid (filename u) root)"
  shows "(let path = unique_file_path L uid (filename u) root;
              payload = drop (pos u) (data u);
              chunks = chunks_of CHUNK_SIZE payload
          in save_upload_file L uid u root fs =
               (Inr path,
                u\<lparr>pos := 0, read_log := read_log u @ chunks @ [[]]\<rparr>,
                fs(path \<mapsto> File (concat chunks))) \<and>
             concat chunks = payload \<and>
             (pos u = 0 \<longrightarrow> payload = data u) \<and>
             list_all (\<lambda>c. c \<noteq> [] \<and> length c \<le> CHUNK_SIZE) chunks \<and>
             list_all (\<lambda>c. length c = CHUNK_SIZE) (butlast chunks) \<and>
             CHUNK_SIZE = 1048576)"
proof -
  have pos0: "0 < CHUNK_SIZE" by (simp add: CHUNK_SIZE_def)
  have ch: "snd (copy_loop CHUNK_SIZE u []) = chunks_of CHUNK_SIZE (drop (pos u) (data u))"
    using copy_loop_chunks [OF pos0, of u "[]"] by simp
  have c: "concat (chunks_of CHUNK_SIZE (drop (pos u) (data u))) = drop (pos u) (data u)"
    using copy_loop_concat [OF pos0, of u "[]"] by (simp add: ch)
  have s: "list_all (\<lambda>c. length c = CHUNK_SIZE)
             (butlast (chunks_of CHUNK_SIZE (drop (pos u) (data u)))) \<and>
           list_all (\<lambda>c. c \<noteq> [] \<and> length c \<le> CHUNK_SIZE)
             (chunks_of CHUNK_SIZE (drop (pos u) (data u)))"
    using copy_loop_sizes [OF pos0, of "[]" u] by (simp add: ch)
  have k: "CHUNK_SIZE = 1048576" by (simp add: CHUNK_SIZE_def)
  show ?thesis
    unfolding Let_def using save_upload_file_ok [OF assms] c s k by simp
qed

theorem save_upload_file_identical_witness:
  "save_upload_file sample_lib 0
      \<lparr>filename = str ''A.PDF'', data = [1, 2, 3], pos = 0, read_log = []\<rparr>
      PDF_DOWNLOAD_FOLDER Map.empty =
     (Inr (str ''pdf_uploads/'' @ uuid_hex 0 @ str ''.pdf''),
      \<lparr>filename = str ''A.PDF'', data = [1, 2, 3], pos = 0, read_log = [[1, 2, 3], []]\<rparr>,
      [str ''pdf_uploads/'' @ uuid_hex 0 @ str ''.pdf'' \<mapsto> File [1, 2, 3]]) \<and>
   save_upload_file sample_lib 0
      \<lparr>filename = str ''A.PDF'', data = [], pos = 0, read_log = []\<rparr>
      PDF_DOWNLOAD_FOLDER Map.empty =
     (Inr (str ''pdf_uploads/'' @ uuid_hex 0 @ str ''.pdf''),
      \<lparr>filename = str ''A.PDF'', data = [], pos = 0, read_log = [[]]\<rparr>,
      [str ''pdf_uploads/'' @ uuid_hex 0 @ str ''.pdf'' \<mapsto> File []]) \<and>
   save_upload_file sample_lib 0
      \<lparr>filename = str ''A.PDF'', data = replicate 1048577 7, pos = 0, read_log = []\<rparr>
      PDF_DOWNLOAD_FOLDER Map.empty =
     (Inr (str ''pdf_uploads/'' @ uuid_hex 0 @ str ''.pdf''),
      \<lparr>filename = str ''A.PDF'', data = replicate 1048577 7, pos = 0,
        read_log = [replicate 1048576 7, [7], []]\<rparr>,
      [str ''pdf_uploads/'' @ uuid_hex 0 @ str ''.pdf'' \<mapsto> File (replicate 1048577 7)])"
proof -
  have w: "writable Map.empty (unique_file_path sample_lib 0 (filename u) PDF_DOWNLOAD_FOLDER)"
    if "filename u = str ''A.PDF''" for u :: upload_file
    using that by (simp add: writable_def sample_path_A_PDF sample_path_fits)
  have c1: "chunks_of CHUNK_SIZE [1, 2, 3] = [[1, 2, 3]]"
    by (rule chunks_of_short) (simp_all add: CHUNK_SIZE_def)
  have c2: "chunks_of CHUNK_SIZE [] = []"
    by (rule chunks_of_nil)
  have "chunks_of CHUNK_SIZE (replicate 1048577 7) =
          take CHUNK_SIZE (replicate 1048577 7) #
          chunks_of CHUNK_SIZE (drop CHUNK_SIZE (replicate 1048577 7))"
    by (rule chunks_of_step) (simp_all add: CHUNK_SIZE_def)
  moreover have "take CHUNK_SIZE (replicate 1048577 (7 :: 8 word)) = replicate 1048576 7"
    by (simp add: CHUNK_SIZE_def)
  moreover have "drop CHUNK_SIZE (replicate 1048577 (7 :: 8 word)) = [7]"
    by (simp add: CHUNK_SIZE_def)
  moreover have "chunks_of CHUNK_SIZE [7] = [[7]]"
    by (rule chunks_of_short) (simp_all add: CHUNK_SIZE_def)
  ultimately have c3: "chunks_of CHUNK_SIZE (replicate 1048577 7) = [replicate 1048576 7, [7]]"
    by simp
  have a: "save_upload_file sample_lib 0
      \<lparr>filename = str ''A.PDF'', data = [1, 2, 3], pos = 0, read_log = []\<rparr>
      PDF_DOWNLOAD_FOLDER Map.empty =
     (Inr (str ''pdf_uploads/'' @ uuid_hex 0 @ str ''.pdf''),
      \<lparr>filename = str ''A.PDF'', data = [1, 2, 3], pos = 0, read_log = [[1, 2, 3], []]\<rparr>,
      [str ''pdf_uploads/'' @ uuid_hex 0 @ str ''.pdf'' \<mapsto> File [1, 2, 3]])"
    using save_upload_file_identical [OF w, of
        "\<lparr>filename = str ''A.PDF'', data = [1, 2, 3], pos = 0, read_log = []\<rparr>"]
    by (simp add: Let_def sample_path_A_PDF c1)
  have b: "save_upload_file sample_lib 0
      \<lparr>filename = str ''A.PDF'', data = [], pos = 0, read_log = []\<rparr>
      PDF_DOWNLOAD_FOLDER Map.empty =
     (Inr (str ''pdf_uploads/'' @ uuid_hex 0 @ str ''.pdf''),
      \<lparr>filename = str ''A.PDF'', data = [], pos = 0, read_log = [[]]\<rparr>,
      [str ''pdf_uploads/'' @ uuid_hex 0 @ str ''.pdf'' \<mapsto> File []])"
    using save_upload_file_identical [OF w, of
        "\<lparr>filename = str ''A.PDF'', data = [], pos = 0, read_log = []\<rparr>"]
    by (simp add: Let_def sample_path_A_PDF c2)
  have c: "save_upload_file sample_lib 0
      \<lparr>filename = str ''A.PDF'', data = replicate 1048577 7, pos = 0, read_log = []\<rparr>
      PDF_DOWNLOAD_FOLDER Map.empty =
     (Inr (str ''pdf_uploads/'' @ uuid_hex 0 @ str ''.pdf''),
      \<lparr>filename = str ''A.PDF'', data = replicate 1048577 7, pos = 0,
        read_log = [replicate 1048576 7, [7], []]\<rparr>,
      [str ''pdf_uploads/'' @ uuid_hex 0 @ str ''.pdf'' \<mapsto> File (replicate 1048577 7)])"
  proof -
    note th = save_upload_file_identical [OF w, of
        "\<lparr>filename = str ''A.PDF'', data = replicate 1048577 7, pos = 0, read_log = []\<rparr>",
        unfolded Let_def]
    from th [THEN conjunct1] th [THEN conjunct2, THEN conjunct1] show ?thesis
      by (simp add: sample_path_A_PDF c3)
  qed
  from a b c show ?thesis by blast
qed

text \<open>The same loop with chunks of two bytes, on five bytes: three chunks.\<close>

lemma copy_loop_three_chunks:
  "copy_loop 2 \<lparr>filename = [], data = [1, 2, 3, 4, 5], pos = 0, read_log = []\<rparr> [] =
     (\<lparr>filename = [], data = [1, 2, 3, 4, 5], pos = 5,
       read_log = [[1, 2], [3, 4], [5], []]\<rparr>,
      [[1, 2], [3, 4], [5]])"
  by (simp add: copy_loop.simps [of 2] upload_read_def Let_def)

section \<open>Properties of the deferred deletion\<close>

lemma remove_if_exists_absent: "fs p = None \<Longrightarrow> remove_if_exists fs p = Inr fs"
  by (simp add: remove_if_exists_def os_path_exists_def)

lemma remove_if_exists_file:
  "fs p = Some (File b) \<Longrightarrow> \<not> name_too_long p \<Longrightarrow> remove_if_exists fs p = Inr (fs(p := None))"
  by (simp add: remove_if_exists_def os_path_exists_def os_remove_def)



text \<open>
  Claim C2: a deletion is scheduled for \<open>p\<close> with delay \<open>d\<close>; by the time its thread wakes
  up the file system is some \<open>fs'\<close> in which \<open>p\<close> no longer exists. Then the thread raises
  nothing, leaves the file system as it is, and is gone: nothing is left to try again.
\<close>

theorem fire_after_removal_noop:
  assumes "fs' p = None"
  shows "fire (length (pending w)) ((delete_file_later p d w)\<lparr>files := fs'\<rparr>) =
           (None, \<lparr>files = fs', pending = pending w\<rparr>)"
  using assms by (simp add: fire_def delete_file_later_def Let_def remove_if_exists_absent)

theorem fire_after_removal_noop_witness:
  "fire 0 ((delete_file_later (str ''pdf_uploads/a.pdf'') 300
              \<lparr>files = [str ''pdf_uploads/a.pdf'' \<mapsto> File [1]], pending = []\<rparr>)
            \<lparr>files := Map.empty\<rparr>) =
     (None, \<lparr>files = Map.empty, pending = []\<rparr>)"
  using fire_after_removal_noop
          [of Map.empty "str ''pdf_uploads/a.pdf''"
              "\<lparr>files = [str ''pdf_uploads/a.pdf'' \<mapsto> File [1]], pending = []\<rparr>" 300]
  by simp

text \<open>When the file is still there, the thread removes it.\<close>

lemma fire_removes_file:
  assumes "files w p = Some (File b)" "\<not> name_too_long p"
  shows "fire (length (pending w)) (delete_file_later p d w) =
           (None, \<lparr>files = (files w)(p := None), pending = pending w\<rparr>)"
  using assms by (simp add: fire_def delete_file_later_def Let_def remove_if_exists_file)

section \<open>Properties of the video download\<close>

text \<open>
  Claim C9, as stated, at a downloader that reports and stores \<open>downloads/a.MP4\<close>: the
  lower-cased name ends in \<open>.mp4\<close>, so the name is returned as it is, and it does not end
  in \<open>.mp4\<close>.
\<close>

theorem download_video_upper_counterexample:
  "download_video sample_lib (sample_ytlib (str ''downloads/a.MP4'') (str ''downloads/a.MP4''))
      (str ''http://x/a'') (str ''downloads/%(id)s.%(ext)s'') None Map.empty =
     (Inr (str ''downloads/a.MP4''), [str ''downloads/a.MP4'' \<mapsto> File []]) \<and>
   \<not> endswith (str ''downloads/a.MP4'') (str ''.mp4'')"
proof -
  have "\<not> name_too_long (str ''downloads/a.MP4'')"
    by (rule short_ascii_name) (simp_all add: str_def)
  then show ?thesis
    by (simp add: download_video_def sample_ytlib_def Let_def sample_lib_fields ascii_lower_def
        os_path_exists_def)
       (simp add: str_def endswith_def)
qed

text \<open>
  Claim C9, amended: when the downloader returns, the final name is the reported name if
  its lower-cased form ends in \<open>.mp4\<close>, and the stem of the reported name plus \<open>.mp4\<close>
  otherwise; so it ends in \<open>.mp4\<close> up to the case of the letters. \<open>download_video\<close>
  returns the final name when that file exists and raises \<open>FileNotFoundError\<close> when it
  does not.
\<close>

theorem download_video_mp4:
  assumes "extract_info Y (ydl_options tmpl custom) url fs = (Inr info, fs')"
  shows "(let reported = prepare_filename Y (ydl_options tmpl custom) info;
              final = (if endswith (str_lower L reported) (str ''.mp4'') then reported
                       else fst (splitext reported) @ str ''.mp4'')
          in (endswith final (str ''.mp4'') \<or>
              final = reported \<and> endswith (str_lower L final) (str ''.mp4'')) \<and>
             download_video L Y url tmpl custom fs =
               (if os_path_exists fs' final then Inr final
                else Inl (FileNotFoundError (str ''Failed to download video.'')), fs'))"
proof -
  let ?r = "prepare_filename Y (ydl_options tmpl custom) info"
  show ?thesis
  proof (cases "endswith (str_lower L ?r) (str ''.mp4'')")
    case True
    then show ?thesis
      using assms by (simp add: download_video_def Let_def)
  next
    case False
    have "endswith (fst (splitext ?r) @ str ''.mp4'') (str ''.mp4'')"
      by (simp add: endswith_def)
    then show ?thesis
      using assms False by (simp add: download_video_def Let_def)
  qed
qed

theorem download_video_mp4_witness:
  "download_video sample_lib (sample_ytlib (str ''downloads/a.webm'') (str ''downloads/a.mp4''))
      (str ''http://x/a'') (str ''downloads/%(id)s.%(ext)s'') None Map.empty =
     (Inr (str ''downloads/a.mp4''), [str ''downloads/a.mp4'' \<mapsto> File []]) \<and>
   download_video sample_lib (sample_ytlib (str ''downloads/a.webm'') (str ''downloads/a.webm''))
      (str ''http://x/a'') (str ''downloads/%(id)s.%(ext)s'') None Map.empty =
     (Inl (FileNotFoundError (str ''Failed to download video.'')),
      [str ''downloads/a.webm'' \<mapsto> File []])"
proof -
  let ?Y1 = "sample_ytlib (str ''downloads/a.webm'') (str ''downloads/a.mp4'')"
  let ?Y2 = "sample_ytlib (str ''downloads/a.webm'') (str ''downloads/a.webm'')"
  let ?t = "str ''downloads/%(id)s.%(ext)s''"
  have e1: "extract_info ?Y1 (ydl_options ?t None) (str ''http://x/a'') Map.empty =
              (Inr [], [str ''downloads/a.mp4'' \<mapsto> File []])"
    by (simp add: sample_ytlib_def)
  have e2: "extract_info ?Y2 (ydl_options ?t None) (str ''http://x/a'') Map.empty =
              (Inr [], [str ''downloads/a.webm'' \<mapsto> File []])"
    by (simp add: sample_ytlib_def)
  have p1: "prepare_filename ?Y1 (ydl_options ?t None) [] = str ''downloads/a.webm''"
    and p2: "prepare_filename ?Y2 (ydl_options ?t None) [] = str ''downloads/a.webm''"
    by (simp_all add: sample_ytlib_def)
  have sp: "fst (splitext (str ''downloads/a.webm'')) @ str ''.mp4'' = str ''downloads/a.mp4''"
    by (simp add: splitext_def str_def slash_def dot_def)
  have lw: "\<not> endswith (str_lower sample_lib (str ''downloads/a.webm'')) (str ''.mp4'')"
    by (simp add: sample_lib_fields ascii_lower_def str_def endswith_def)
  have ne: "str ''downloads/a.mp4'' \<noteq> str ''downloads/a.webm''"
    by (simp add: str_def)
  have fits: "\<not> name_too_long (str ''downloads/a.mp4'')"
    by (rule short_ascii_name) (simp_all add: str_def)
  from download_video_mp4 [OF e1, of sample_lib] download_video_mp4 [OF e2, of sample_lib]
  show ?thesis
    using ne fits by (simp add: Let_def p1 p2 sp lw os_path_exists_def)
qed

section \<open>Properties of the paths\<close>

declare dec.simps [simp del]

lemma safe_stem_class: "safe_stem L f = Inr b \<Longrightarrow> list_all in_class b \<and> b \<noteq> []"
proof -
  assume a: "safe_stem L f = Inr b"
  let ?s = "re_sub (filter (\<lambda>c. c < 128) (normalize_NFKD L (fst (splitext (basename f)))))"
  have b: "b = (if ?s \<noteq> [] then ?s else str ''file'')"
    using a by (simp add: safe_stem_def ascii_filename_value Let_def)
  have "list_all in_class (str ''file'')" by (simp add: str_def in_class_def)
  moreover have "str ''file'' \<noteq> []" by (simp add: str_def)
  ultimately show ?thesis using b re_sub_in_class [of "filter (\<lambda>c. c < 128) (normalize_NFKD L (fst (splitext (basename f))))"]
    by (cases "?s = []") simp_all
qed

lemma safe_stem_total: "\<exists>b. safe_stem L f = Inr b"
  by (simp add: safe_stem_def ascii_filename_value Let_def)

lemma class_not_startswith_slash:
  "b \<noteq> [] \<Longrightarrow> list_all in_class b \<Longrightarrow> \<not> startswith (b @ r) [slash]"
  by (cases b) (auto simp: startswith_def dest: in_class_not_slash)

lemma join_plain:
  "a \<noteq> [] \<Longrightarrow> last a \<noteq> slash \<Longrightarrow> \<not> startswith x [slash] \<Longrightarrow> join a x = a @ slash # x"
proof -
  assume a: "a \<noteq> []" and l: "last a \<noteq> slash" and x: "\<not> startswith x [slash]"
  have "\<not> endswith a [slash]"
  proof
    assume "endswith a [slash]"
    then have "drop (length a - 1) a = [slash]" by (simp add: endswith_def)
    moreover have "drop (length a - 1) a = [last a]"
      using a by (metis append_butlast_last_id append_eq_conv_conj length_butlast)
    ultimately show False using l by simp
  qed
  then show ?thesis using a x by (simp add: join_def)
qed

lemma folder_facts:
  "PDF_DOWNLOAD_FOLDER \<noteq> []" "last PDF_DOWNLOAD_FOLDER \<noteq> slash" "hd PDF_DOWNLOAD_FOLDER = 112"
  "EXCEL_DOWNLOAD_FOLDER \<noteq> []" "last EXCEL_DOWNLOAD_FOLDER \<noteq> slash" "hd EXCEL_DOWNLOAD_FOLDER = 101"
  "WORD_DOWNLOAD_FOLDER \<noteq> []" "last WORD_DOWNLOAD_FOLDER \<noteq> slash" "hd WORD_DOWNLOAD_FOLDER = 119"
  "IMAGE_DOWNLOAD_FOLDER \<noteq> []" "last IMAGE_DOWNLOAD_FOLDER \<noteq> slash" "hd IMAGE_DOWNLOAD_FOLDER = 105"
  by (simp_all add: PDF_DOWNLOAD_FOLDER_def EXCEL_DOWNLOAD_FOLDER_def WORD_DOWNLOAD_FOLDER_def
      IMAGE_DOWNLOAD_FOLDER_def str_def slash_def)

lemma pdf_path_form:
  "unique_file_path L uid name PDF_DOWNLOAD_FOLDER =
     PDF_DOWNLOAD_FOLDER @ slash #
       (uuid_hex uid @ (if snd (splitext name) \<noteq> [] then str_lower L (snd (splitext name)) else []))"
  unfolding unique_file_path_def Let_def
  by (rule join_plain) (simp_all add: folder_facts uuid_hex_not_slash)

lemma pdf_path_hd: "hd (unique_file_path L uid name PDF_DOWNLOAD_FOLDER) = 112"
  by (simp add: pdf_path_form folder_facts)

lemma derived_path_form:
  assumes "b \<noteq> []" "list_all in_class b" "folder \<noteq> []" "last folder \<noteq> slash"
  shows "join folder (b @ r) = folder @ slash # b @ r"
  using assms by (intro join_plain class_not_startswith_slash)


lemma hd_neq: "hd p \<noteq> hd q \<Longrightarrow> p \<noteq> q"
  by auto

lemma startswith_hd: "startswith p (d @ r) \<Longrightarrow> d \<noteq> [] \<Longrightarrow> hd p = hd d"
  by (cases d; cases p) (auto simp: startswith_def)

section \<open>What the conversions leave alone\<close>

lemma write_file_other: "write_file fs p b = Inr fs' \<Longrightarrow> q \<noteq> p \<Longrightarrow> fs' q = fs q"
  by (auto simp: write_file_def split: option.splits node.splits if_splits)


lemma write_file_result: "write_file fs p b = Inr fs' \<Longrightarrow> fs' = fs(p \<mapsto> File b)"
  by (auto simp: write_file_def split: option.splits node.splits if_splits)









lemma save_pages_other:
  assumes form: "\<And>name. join S (B @ name) = S @ slash # B @ name"
  shows "\<not> startswith q (S @ [slash]) \<Longrightarrow> snd (save_pages pages k S B fs acc) q = fs q"
proof (induction pages arbitrary: k fs acc)
  case Nil
  then show ?case by simp
next
  case (Cons page pages)
  let ?p = "page_image_path S B k"
  have "startswith ?p (S @ [slash])"
    by (simp add: page_image_path_def form startswith_def)
  then have ne: "q \<noteq> ?p" using Cons.prems by auto
  show ?case
  proof (cases "get_pixmap page")
    case (Inl e)
    then show ?thesis by simp
  next
    case px: (Inr pix)
    show ?thesis
    proof (cases "write_file fs ?p pix")
      case (Inl e)
      then show ?thesis using px by simp
    next
      case (Inr fs')
      then have "save_pages (page # pages) k S B fs acc =
                   save_pages pages (k + 1) S B fs' (acc @ [?p])"
        using px by simp
      moreover have "snd (save_pages pages (k + 1) S B fs' (acc @ [?p])) q = fs' q"
        using Cons.prems by (rule Cons.IH)
      moreover have "fs' q = fs q"
        using Inr ne by (rule write_file_other)
      ultimately show ?thesis by simp
    qed
  qed
qed

lemma create_images_zip_unfold:
  assumes "read_file fs pdf = Inr b" "fitz_open P b = Inr doc" "doc \<noteq> []"
    and "save_pages doc 0 S B fs [] = (r, fs1)"
  shows "create_images_zip P fs pdf S Z B =
     (case r of
        Inl e \<Rightarrow> (Some e, fs1)
      | Inr image_paths \<Rightarrow>
          (case write_file fs1 Z (zip_encode P []) of
             Inl e \<Rightarrow> (Some e, fs1)
           | Inr fs2 \<Rightarrow>
               (fst (zip_write_all image_paths fs2 []),
                fs2(Z \<mapsto> File (zip_encode P (snd (zip_write_all image_paths fs2 [])))))))"
  using assms by (simp add: create_images_zip_def split_def Let_def split: sum.splits)

lemma create_images_zip_shape:
  "snd (create_images_zip P fs pdf S Z B) = fs \<or>
   (\<exists>doc. snd (create_images_zip P fs pdf S Z B) = snd (save_pages doc 0 S B fs []) \<or>
      (\<exists>c. write_file (snd (save_pages doc 0 S B fs [])) Z (zip_encode P []) \<noteq>
              Inl (OSError (EISDIR Z)) \<and>
            snd (create_images_zip P fs pdf S Z B) =
              (snd (save_pages doc 0 S B fs []))(Z \<mapsto> File c)))"
proof (cases "read_file fs pdf")
  case (Inl e)
  then show ?thesis by (simp add: create_images_zip_def)
next
  case rf: (Inr b)
  show ?thesis
  proof (cases "fitz_open P b")
    case (Inl e)
    then show ?thesis using rf by (simp add: create_images_zip_def)
  next
    case fo: (Inr doc)
    show ?thesis
    proof (cases "doc = []")
      case True
      then show ?thesis using rf fo by (simp add: create_images_zip_def)
    next
      case ne: False
      obtain r fs1 where sv: "save_pages doc 0 S B fs [] = (r, fs1)"
        by (cases "save_pages doc 0 S B fs []")
      note u = create_images_zip_unfold [OF rf fo ne sv, of Z]
      let ?X = "snd (create_images_zip P fs pdf S Z B)"
      let ?sp = "snd (save_pages doc 0 S B fs [])"
      have fs1: "?sp = fs1" using sv by simp
      show ?thesis
      proof (cases r)
        case (Inl e)
        then have A: "?X = ?sp"
          using u fs1 by simp
        show ?thesis
          by (rule disjI2, rule exI [of _ doc], rule disjI1, rule A)
      next
        case ip: (Inr image_paths)
        show ?thesis
        proof (cases "write_file fs1 Z (zip_encode P [])")
          case (Inl e)
          then have A: "?X = ?sp"
            using u fs1 ip by simp
          show ?thesis
            by (rule disjI2, rule exI [of _ doc], rule disjI1, rule A)
        next
          case (Inr fs2)
          then have f2: "fs2 = fs1(Z \<mapsto> File (zip_encode P []))"
            by (rule write_file_result)
          let ?c = "zip_encode P (snd (zip_write_all image_paths fs2 []))"
          have "?X = fs2(Z \<mapsto> File ?c)"
            using u ip Inr by simp
          then have C: "?X = ?sp(Z \<mapsto> File ?c)"
            by (simp only: f2 fs1 fun_upd_upd)
          have W: "write_file ?sp Z (zip_encode P []) \<noteq> Inl (OSError (EISDIR Z))"
            by (simp only: fs1 Inr) simp
          show ?thesis
            by (rule disjI2, rule exI [of _ doc], rule disjI2, rule exI [of _ ?c],
                rule conjI, rule W, rule C)
        qed
      qed
    qed
  qed
qed

lemma images_zip_other:
  assumes form: "\<And>name. join S (B @ name) = S @ slash # B @ name"
    and q: "q \<noteq> Z" "\<not> startswith q (S @ [slash])"
  shows "snd (create_images_zip P fs pdf S Z B) q = fs q"
proof -
  have sp: "\<And>x :: fitz_page list. snd (save_pages x 0 S B fs []) q = fs q"
    by (rule save_pages_other [OF form q(2)])
  from create_images_zip_shape [of P fs pdf S Z B] show ?thesis
    using sp q(1) by auto
qed


section \<open>The handlers when the conversion fails\<close>

lemma not_startswith_longer: "\<not> startswith s (s @ [c])"
  by (simp add: startswith_def)

lemma not_startswith_other: "c \<noteq> d \<Longrightarrow> \<not> startswith (s @ c # r) (s @ [d])"
  by (simp add: startswith_def)

lemma uuid_hex_last: "last (r @ uuid_hex u) \<noteq> slash"
proof -
  have ne: "uuid_hex u \<noteq> []" using uuid_hex_length [of u] by auto
  then have "last (uuid_hex u) \<in> set (uuid_hex u)" by simp
  then have "in_class (last (uuid_hex u))"
    using uuid_hex_in_class [of u] by (simp add: list_all_iff)
  then show ?thesis using ne by (simp add: in_class_not_slash)
qed

lemma session_facts:
  fixes b :: ustr and u :: uuid
  assumes b: "b \<noteq> []" "list_all in_class b"
  defines "S \<equiv> join IMAGE_DOWNLOAD_FOLDER (b @ str ''_'' @ uuid_hex u)"
  defines "Z \<equiv> join IMAGE_DOWNLOAD_FOLDER (b @ str ''_'' @ uuid_hex u @ str ''.zip'')"
  shows "S \<noteq> []" "hd S = 105" "hd Z = 105" "Z = S @ str ''.zip''" "Z \<noteq> S"
    "\<not> startswith Z (S @ [slash])" "\<not> startswith S (S @ [slash])"
    "join S (b @ name) = S @ slash # b @ name"
proof -
  have S: "S = IMAGE_DOWNLOAD_FOLDER @ slash # b @ str ''_'' @ uuid_hex u"
    unfolding S_def using b by (simp add: derived_path_form folder_facts)
  have Z: "Z = IMAGE_DOWNLOAD_FOLDER @ slash # b @ str ''_'' @ uuid_hex u @ str ''.zip''"
    unfolding Z_def using b by (simp add: derived_path_form folder_facts)
  show "S \<noteq> []" by (simp add: S)
  show "hd S = 105" by (simp add: S folder_facts)
  show "hd Z = 105" by (simp add: Z folder_facts)
  show ZS: "Z = S @ str ''.zip''" by (simp add: S Z)
  show "Z \<noteq> S" by (simp add: ZS str_def)
  have "dot \<noteq> slash" by (simp add: dot_def slash_def)
  then show "\<not> startswith Z (S @ [slash])"
    unfolding ZS by (simp add: str_def startswith_def dot_def)
  show "\<not> startswith S (S @ [slash])" by (rule not_startswith_longer)
  have "last S \<noteq> slash"
    using uuid_hex_last [of "IMAGE_DOWNLOAD_FOLDER @ slash # b @ str ''_''" u] by (simp add: S)
  then show "join S (b @ name) = S @ slash # b @ name"
    using b \<open>S \<noteq> []\<close> by (simp add: derived_path_form)
qed





text \<open>
  \<open>os.makedirs\<close> is called before the \<open>try\<close>: when the name of the session directory is
  too long, \<open>/pdf/to-image\<close> raises, with the upload persisted and no deletion scheduled.
\<close>

lemma pdf_to_image_name_too_long:
  fixes L :: pylib and P :: pdflib and uid1 uid2 :: uuid and upload :: upload_file
    and w :: world and base :: ustr
  defines "pdf_path \<equiv> unique_file_path L uid1 (filename upload) PDF_DOWNLOAD_FOLDER"
  defines "fs1 \<equiv> (files w)(pdf_path \<mapsto> File (drop (pos upload) (data upload)))"
  defines "session \<equiv> join IMAGE_DOWNLOAD_FOLDER (base @ str ''_'' @ uuid_hex uid2)"
  defines "upload' \<equiv> upload\<lparr>pos := 0,
        read_log := read_log upload @ chunks_of CHUNK_SIZE (drop (pos upload) (data upload)) @ [[]]\<rparr>"
  assumes valid: "endswith (str_lower L (filename upload)) (str ''.pdf'')"
    and stem: "safe_stem L (filename upload) = Inr base"
    and nd: "writable (files w) pdf_path"
    and long: "name_too_long session"
  shows "pdf_to_image L P uid1 uid2 upload w =
           (Inl (OSError (ENAMETOOLONG session)), upload', w\<lparr>files := fs1\<rparr>)"
proof -
  have sv: "save_upload_file L uid1 upload PDF_DOWNLOAD_FOLDER (files w) =
              (Inr pdf_path, upload', fs1)"
    unfolding pdf_path_def fs1_def upload'_def using nd
    by (intro save_upload_file_ok) (simp add: pdf_path_def)
  have mk: "os_makedirs fs1 session = Inl (OSError (ENAMETOOLONG session))"
    using long by (simp add: os_makedirs_def)
  show ?thesis
    unfolding pdf_to_image_def
    by (simp add: valid sv stem Let_def mk flip: session_def)
qed

text \<open>
  The session directory is named by the stem, an underscore and 32 digits, so its name
  is too long exactly when the stem has more than 222 characters.
\<close>

lemma component_too_long_append:
  "slash \<notin> set a \<Longrightarrow>
   component_too_long k (a @ r) = component_too_long (k + sum_list (map utf8_len a)) r"
  by (induction a arbitrary: k) (auto simp: add.assoc)

lemma class_bytes: "list_all in_class p \<Longrightarrow> sum_list (map utf8_len p) = length p"
  by (rule ascii_bytes) (auto simp: list_all_iff in_class_ascii)

lemma class_no_slash_set: "list_all in_class p \<Longrightarrow> slash \<notin> set p"
  by (auto simp: list_all_iff dest: in_class_not_slash)

lemma session_name_too_long:
  assumes b: "b \<noteq> []" "list_all in_class b"
  shows "name_too_long (join IMAGE_DOWNLOAD_FOLDER (b @ str ''_'' @ uuid_hex u)) \<longleftrightarrow>
         222 < length b"
proof -
  define n where "n = b @ str ''_'' @ uuid_hex u"
  have cn: "list_all in_class n"
    unfolding n_def using b(2) uuid_hex_in_class [of u]
    by (simp add: str_def) (simp add: in_class_def underscore_def)
  have ci: "list_all in_class IMAGE_DOWNLOAD_FOLDER"
    by (simp add: IMAGE_DOWNLOAD_FOLDER_def str_def in_class_def underscore_def)
  have S: "join IMAGE_DOWNLOAD_FOLDER (b @ str ''_'' @ uuid_hex u) =
             IMAGE_DOWNLOAD_FOLDER @ slash # n"
    unfolding n_def using b by (simp add: derived_path_form folder_facts)
  have ln: "length n = length b + 33"
    by (simp add: n_def uuid_hex_length str_def)
  have li: "length IMAGE_DOWNLOAD_FOLDER = 13"
    by (simp add: IMAGE_DOWNLOAD_FOLDER_def str_def)
  have bi: "sum_list (map utf8_len IMAGE_DOWNLOAD_FOLDER) = 13"
    using class_bytes [OF ci] li by simp
  have bn: "sum_list (map utf8_len n) = length b + 33"
    using class_bytes [OF cn] ln by simp
  have "component_too_long 0 (IMAGE_DOWNLOAD_FOLDER @ slash # n) =
          component_too_long 13 (slash # n)"
    using component_too_long_append [OF class_no_slash_set [OF ci], of 0 "slash # n"]
    by (simp add: bi)
  also have "\<dots> = component_too_long 0 (n @ [])"
    by (simp add: NAME_MAX_def)
  also have "\<dots> = component_too_long (length b + 33) []"
    using component_too_long_append [OF class_no_slash_set [OF cn], of 0 "[]"]
    by (simp only: bn add_0)
  also have "\<dots> = (222 < length b)"
    by (auto simp: NAME_MAX_def)
  finally have c: "component_too_long 0 (IMAGE_DOWNLOAD_FOLDER @ slash # n) = (222 < length b)" .
  have "sum_list (map utf8_len (IMAGE_DOWNLOAD_FOLDER @ slash # n)) = length b + 47"
    by (simp add: bi bn utf8_len_def slash_def)
  then show ?thesis
    unfolding S name_too_long_def c by (auto simp: PATH_MAX_def)
qed

section \<open>Failed conversions\<close>





lemma read_file_upd_other: "q \<noteq> p \<Longrightarrow> read_file (fs(p \<mapsto> n)) q = read_file fs q"
  by (simp add: read_file_def)


lemma sample_pdflib_fields:
  "pdfplumber_open (sample_pdflib fp pp) b = Inr pp"
  "pd_DataFrame (sample_pdflib fp pp) rows header = None"
  "ExcelWriter_write (sample_pdflib fp pp) sheets = (None, Some [])"
  "Converter_init (sample_pdflib fp pp) b = None"
  "Converter_convert (sample_pdflib fp pp) b = (Some (LibraryError (str ''broken'')), Some [1])"
  "Converter_close (sample_pdflib fp pp) b = None"
  "fitz_open (sample_pdflib fp pp) b = Inr fp"
  by (simp_all add: sample_pdflib_def)

lemma sample_valid: "endswith (str_lower sample_lib (str ''A.PDF'')) (str ''.pdf'')"
  by (simp add: sample_lib_fields ascii_lower_def str_def endswith_def)

lemma sample_stem: "safe_stem sample_lib (str ''A.PDF'') = Inr (str ''A'')"
  by (simp add: safe_stem_def ascii_filename_value sample_lib_fields nfkd_fragment_def
      basename_def splitext_def Let_def str_def in_class_def slash_def dot_def underscore_def)


lemma sample_writable:
  "writable (files empty_world) (unique_file_path sample_lib uid (str ''A.PDF'') PDF_DOWNLOAD_FOLDER)"
  by (simp add: writable_def sample_path_A_PDF sample_path_fits empty_world_def)


lemma sample_session_fits:
  "\<not> name_too_long (join IMAGE_DOWNLOAD_FOLDER (str ''A'' @ str ''_'' @ uuid_hex uid))"
proof -
  have "str ''A'' \<noteq> []" "list_all in_class (str ''A'')"
    by (simp_all add: str_def in_class_def)
  from session_name_too_long [OF this, of uid] show ?thesis
    by (simp add: str_def)
qed

lemma short_derived_fits:
  assumes "list_all in_class folder" "folder \<noteq> []" "last folder \<noteq> slash"
    and "list_all in_class r" "length folder + length r \<le> 200"
  shows "\<not> name_too_long (join folder (str ''A'' @ r))"
proof -
  have A: "str ''A'' \<noteq> []" "list_all in_class (str ''A'')"
    by (simp_all add: str_def in_class_def)
  have form: "join folder (str ''A'' @ r) = folder @ slash # str ''A'' @ r"
    using A assms(2,3) by (rule derived_path_form)
  have "list_all (\<lambda>c. c < 128) (folder @ slash # str ''A'' @ r)"
    using assms(1,4) A(2) by (auto simp: list_all_iff in_class_ascii slash_def)
  moreover have "length (folder @ slash # str ''A'' @ r) \<le> 255"
    using assms(5) by (simp add: str_def)
  ultimately show ?thesis
    unfolding form by (rule short_ascii_name)
qed



lemma sample_zip_fits:
  "\<not> name_too_long (join IMAGE_DOWNLOAD_FOLDER (str ''A'' @ str ''_'' @ uuid_hex uid @ str ''.zip''))"
  by (rule short_derived_fits)
     (simp_all add: folder_facts uuid_hex_in_class uuid_hex_length,
      simp_all add: IMAGE_DOWNLOAD_FOLDER_def str_def in_class_def underscore_def dot_def)






section \<open>The archive of page images\<close>

lemma dec_nonempty: "dec n \<noteq> []"
  by (subst dec.simps) simp

lemma dec_in_class: "list_all in_class (dec n)"
proof (induction n rule: dec.induct)
  case (1 n)
  show ?case
  proof (cases "n < 10")
    case True
    then show ?thesis by (subst dec.simps) (simp add: in_class_def)
  next
    case False
    have "n mod 10 \<le> 9" using mod_less_divisor [of 10 n] by linarith
    then have "in_class (48 + n mod 10)" by (simp add: in_class_def)
    with False "1.IH" show ?thesis by (subst dec.simps) simp
  qed
qed

lemma dec_inj: "dec n = dec m \<Longrightarrow> n = m"
proof (induction n arbitrary: m rule: dec.induct)
  case (1 n)
  have long: "\<And>k. \<not> k < 10 \<Longrightarrow> 2 \<le> length (dec k)"
  proof -
    fix k :: nat
    assume k: "\<not> k < 10"
    have "dec (k div 10) \<noteq> []" by (rule dec_nonempty)
    then have "1 \<le> length (dec (k div 10))" by (cases "dec (k div 10)") simp_all
    then show "2 \<le> length (dec k)" using k by (subst dec.simps) simp
  qed
  have short: "\<And>k. k < 10 \<Longrightarrow> dec k = [48 + k]"
    by (subst dec.simps) simp
  show ?case
  proof (cases "n < 10")
    case n: True
    show ?thesis
    proof (cases "m < 10")
      case True
      then show ?thesis using n "1.prems" by (simp add: short)
    next
      case False
      then have "2 \<le> length (dec m)" by (rule long)
      moreover have "length (dec n) = 1" using n by (simp add: short)
      ultimately show ?thesis using "1.prems" by simp
    qed
  next
    case n: False
    show ?thesis
    proof (cases "m < 10")
      case True
      have "2 \<le> length (dec n)" using n by (rule long)
      moreover have "length (dec m) = 1" using True by (simp add: short)
      ultimately show ?thesis using "1.prems" by simp
    next
      case False
      have en: "dec n = dec (n div 10) @ [48 + n mod 10]"
        using n by (subst dec.simps) simp
      have em: "dec m = dec (m div 10) @ [48 + m mod 10]"
        using False by (subst dec.simps) simp
      from "1.prems" en em have a: "dec (n div 10) = dec (m div 10)"
        and b: "n mod 10 = m mod 10" by simp_all
      have "n div 10 = m div 10" using n a by (rule "1.IH")
      then show ?thesis using b by (metis div_mult_mod_eq)
    qed
  qed
qed

lemma rfind_absent: "c \<notin> set ys \<Longrightarrow> rfind ys c = - 1"
  by (induction ys) (auto simp: Let_def)

lemma rfind_append:
  "0 \<le> rfind zs c \<Longrightarrow> rfind (xs @ zs) c = int (length xs) + rfind zs c"
  by (induction xs) (auto simp: Let_def)

lemma basename_join: "slash \<notin> set name \<Longrightarrow> basename (S @ slash # name) = name"
proof -
  assume a: "slash \<notin> set name"
  have "rfind (slash # name) slash = 0"
    using rfind_absent [OF a] by (simp add: Let_def)
  then have "rfind (S @ slash # name) slash = int (length S)"
    using rfind_append [of "slash # name" slash S] by simp
  then show ?thesis by (simp add: basename_def nat_add_distrib)
qed

lemma class_no_slash: "list_all in_class s \<Longrightarrow> slash \<notin> set s"
  by (auto simp: list_all_iff dest: in_class_not_slash)


lemma page_image_path_form:
  assumes form: "\<And>name. join S (B @ name) = S @ slash # B @ name"
  shows "page_image_path S B i = S @ slash # B @ str ''_page_'' @ dec (i + 1) @ str ''.png''"
  by (simp add: page_image_path_def form)

lemma page_image_path_inj:
  assumes form: "\<And>name. join S (B @ name) = S @ slash # B @ name"
  shows "page_image_path S B i = page_image_path S B j \<Longrightarrow> i = j"
proof -
  assume "page_image_path S B i = page_image_path S B j"
  then have "dec (i + 1) = dec (j + 1)"
    by (simp add: page_image_path_form [OF form])
  then have "i + 1 = j + 1" by (rule dec_inj)
  then show "i = j" by simp
qed

lemma page_image_path_under:
  assumes form: "\<And>name. join S (B @ name) = S @ slash # B @ name"
  shows "startswith (page_image_path S B i) (S @ [slash])"
  by (simp add: page_image_path_form [OF form] startswith_def)

lemma page_image_basename:
  assumes form: "\<And>name. join S (B @ name) = S @ slash # B @ name"
    and B: "list_all in_class B"
  shows "basename (page_image_path S B i) = B @ str ''_page_'' @ dec (i + 1) @ str ''.png''"
proof -
  have "list_all in_class (str ''_page_'')" "list_all in_class (str ''.png'')"
    by (simp_all add: str_def in_class_def dot_def underscore_def)
  then have "list_all in_class (B @ str ''_page_'' @ dec (i + 1) @ str ''.png'')"
    using B dec_in_class [of "i + 1"] by simp
  then have "slash \<notin> set (B @ str ''_page_'' @ dec (i + 1) @ str ''.png'')"
    by (rule class_no_slash)
  then show ?thesis
    unfolding page_image_path_form [OF form] by (rule basename_join)
qed

lemma save_pages_success:
  assumes form: "\<And>name. join S (B @ name) = S @ slash # B @ name"
  shows "map get_pixmap pages = map Inr pngs \<Longrightarrow>
         (\<And>q. startswith q (S @ [slash]) \<Longrightarrow> fs q \<noteq> Some Dir) \<Longrightarrow>
         (\<And>i. i < length pages \<Longrightarrow> \<not> name_too_long (page_image_path S B (k + i))) \<Longrightarrow>
         \<exists>fs'. save_pages pages k S B fs acc =
                  (Inr (acc @ map (page_image_path S B) [k..<k + length pages]), fs') \<and>
               (\<forall>i<length pages. fs' (page_image_path S B (k + i)) = Some (File (pngs ! i))) \<and>
               (\<forall>q. (\<forall>i<length pages. q \<noteq> page_image_path S B (k + i)) \<longrightarrow> fs' q = fs q)"
proof (induction pages arbitrary: k fs acc pngs)
  case Nil
  then show ?case by simp
next
  case (Cons page pages)
  from Cons.prems(1) obtain b bs where pngs: "pngs = b # bs"
    and px: "get_pixmap page = Inr b" and rest: "map get_pixmap pages = map Inr bs"
    by (cases pngs) auto
  let ?p = "page_image_path S B k"
  let ?fs1 = "fs(?p \<mapsto> File b)"
  have "fs ?p \<noteq> Some Dir"
    by (rule Cons.prems(2)) (rule page_image_path_under [OF form])
  moreover have "\<not> name_too_long ?p"
    using Cons.prems(3) [of 0] by simp
  ultimately have "writable fs ?p" by (simp add: writable_def)
  then have wr: "write_file fs ?p b = Inr ?fs1" by (rule write_file_ok)
  have nodir1: "\<And>q. startswith q (S @ [slash]) \<Longrightarrow> ?fs1 q \<noteq> Some Dir"
    using Cons.prems(2) by simp
  have fits1: "\<And>i. i < length pages \<Longrightarrow> \<not> name_too_long (page_image_path S B (k + 1 + i))"
    using Cons.prems(3) [of "Suc _"] by simp
  from Cons.IH [where pngs = bs and fs = ?fs1 and k = "k + 1" and acc = "acc @ [?p]",
      OF rest nodir1 fits1]
  obtain fs' where
    sp: "save_pages pages (k + 1) S B ?fs1 (acc @ [?p]) =
           (Inr ((acc @ [?p]) @ map (page_image_path S B) [k + 1..<k + 1 + length pages]), fs')"
    and got: "\<forall>i<length pages. fs' (page_image_path S B (k + 1 + i)) = Some (File (bs ! i))"
    and frame: "\<forall>q. (\<forall>i<length pages. q \<noteq> page_image_path S B (k + 1 + i)) \<longrightarrow> fs' q = ?fs1 q"
    by blast
  have "[k..<k + length (page # pages)] = k # [Suc k..<k + length (page # pages)]"
    by (rule upt_conv_Cons) simp
  moreover have "[Suc k..<k + length (page # pages)] = [k + 1..<k + 1 + length pages]"
    by simp
  ultimately have upt: "[k..<k + length (page # pages)] = k # [k + 1..<k + 1 + length pages]"
    by (simp only:)
  have step: "save_pages (page # pages) k S B fs acc =
                save_pages pages (k + 1) S B ?fs1 (acc @ [?p])"
    by (simp add: px wr)
  have "acc @ map (page_image_path S B) (k # [k + 1..<k + 1 + length pages]) =
          (acc @ [?p]) @ map (page_image_path S B) [k + 1..<k + 1 + length pages]"
    by (simp del: upt_Suc)
  then have lst: "acc @ map (page_image_path S B) [k..<k + length (page # pages)] =
          (acc @ [?p]) @ map (page_image_path S B) [k + 1..<k + 1 + length pages]"
    by (simp only: upt)
  have res: "save_pages (page # pages) k S B fs acc =
           (Inr (acc @ map (page_image_path S B) [k..<k + length (page # pages)]), fs')"
    by (simp only: step sp lst)
  have first: "fs' ?p = Some (File b)"
  proof -
    have "\<forall>i<length pages. ?p \<noteq> page_image_path S B (k + 1 + i)"
      using page_image_path_inj [OF form, of k] by fastforce
    then have "fs' ?p = ?fs1 ?p" using frame by blast
    then show ?thesis by simp
  qed
  have all: "\<forall>i<length (page # pages). fs' (page_image_path S B (k + i)) = Some (File (pngs ! i))"
  proof (intro allI impI)
    fix i assume i: "i < length (page # pages)"
    show "fs' (page_image_path S B (k + i)) = Some (File (pngs ! i))"
    proof (cases i)
      case 0
      then show ?thesis using first pngs by simp
    next
      case (Suc j)
      then have "j < length pages" using i by simp
      then have "fs' (page_image_path S B (k + 1 + j)) = Some (File (bs ! j))"
        using got by blast
      then show ?thesis using Suc pngs by simp
    qed
  qed
  have fr: "\<forall>q. (\<forall>i<length (page # pages). q \<noteq> page_image_path S B (k + i)) \<longrightarrow> fs' q = fs q"
  proof (intro allI impI)
    fix q assume q: "\<forall>i<length (page # pages). q \<noteq> page_image_path S B (k + i)"
    then have "q \<noteq> ?p" by force
    moreover have "\<forall>i<length pages. q \<noteq> page_image_path S B (k + 1 + i)"
    proof (intro allI impI)
      fix i assume "i < length pages"
      then have "Suc i < length (page # pages)" by simp
      then have "q \<noteq> page_image_path S B (k + Suc i)" using q by blast
      then show "q \<noteq> page_image_path S B (k + 1 + i)" by simp
    qed
    ultimately show "fs' q = fs q" using frame by simp
  qed
  show ?case using res all fr by blast
qed

lemma zip_write_all_success:
  "list_all2 (\<lambda>p b. read_file fs p = Inr b) paths bs \<Longrightarrow>
   zip_write_all paths fs acc = (None, acc @ zip (map basename paths) bs)"
proof (induction paths bs arbitrary: acc rule: list_all2_induct)
  case Nil
  then show ?case by simp
next
  case (Cons p ps b bs)
  then show ?case by simp
qed


lemma create_images_zip_success:
  assumes form: "\<And>name. join S (B @ name) = S @ slash # B @ name"
    and B: "list_all in_class B"
    and rd: "read_file fs pdf = Inr b" and fo: "fitz_open P b = Inr doc" and ne: "doc \<noteq> []"
    and pix: "map get_pixmap doc = map Inr pngs"
    and nodir: "\<And>q. startswith q (S @ [slash]) \<Longrightarrow> fs q \<noteq> Some Dir"
    and zd: "fs Z \<noteq> Some Dir" and zs: "\<not> startswith Z (S @ [slash])"
    and zf: "\<not> name_too_long Z"
    and fits: "\<And>i. i < length doc \<Longrightarrow> \<not> name_too_long (page_image_path S B i)"
  shows "\<exists>fs2. create_images_zip P fs pdf S Z B = (None, fs2) \<and>
           fs2 Z = Some (File (zip_encode P
             (zip (map (\<lambda>i. B @ str ''_page_'' @ dec (i + 1) @ str ''.png'') [0..<length doc])
                  pngs)))"
proof -
  let ?path = "page_image_path S B"
  let ?n = "length doc"
  have fits0: "\<And>i. i < length doc \<Longrightarrow> \<not> name_too_long (page_image_path S B (0 + i))"
    using fits by simp
  from save_pages_success [where fs = fs and k = 0 and acc = "[]", OF form pix nodir fits0]
  obtain fs1 where sp: "save_pages doc 0 S B fs [] = (Inr (map ?path [0..<?n]), fs1)"
    and got: "\<forall>i<?n. fs1 (?path i) = Some (File (pngs ! i))"
    and frame: "\<forall>q. (\<forall>i<?n. q \<noteq> ?path i) \<longrightarrow> fs1 q = fs q"
    by auto
  have zp: "\<And>i. Z \<noteq> ?path i"
    using zs page_image_path_under [OF form] by metis
  then have "fs1 Z = fs Z" using frame by simp
  then have "writable fs1 Z" using zd zf by (simp add: writable_def)
  then have wr: "write_file fs1 Z (zip_encode P []) = Inr (fs1(Z \<mapsto> File (zip_encode P [])))"
    by (rule write_file_ok)
  let ?fs2 = "fs1(Z \<mapsto> File (zip_encode P []))"
  have len: "length pngs = ?n"
    using pix by (metis length_map)
  have "list_all2 (\<lambda>p b. read_file ?fs2 p = Inr b) (map ?path [0..<?n]) pngs"
    unfolding list_all2_conv_all_nth
  proof (intro conjI allI impI)
    show "length (map ?path [0..<?n]) = length pngs" using len by simp
  next
    fix i assume "i < length (map ?path [0..<?n])"
    then have i: "i < ?n" by simp
    then have "fs1 (?path i) = Some (File (pngs ! i))" using got by blast
    then have "read_file ?fs2 (?path i) = Inr (pngs ! i)"
      using zp [of i] fits [OF i] by (simp add: read_file_def)
    then show "read_file ?fs2 (map ?path [0..<?n] ! i) = Inr (pngs ! i)"
      using i by simp
  qed
  then have zw: "zip_write_all (map ?path [0..<?n]) ?fs2 [] =
                   (None, zip (map basename (map ?path [0..<?n])) pngs)"
    using zip_write_all_success [of ?fs2 "map ?path [0..<?n]" pngs "[]"] by simp
  have names: "map basename (map ?path [0..<?n]) =
                 map (\<lambda>i. B @ str ''_page_'' @ dec (i + 1) @ str ''.png'') [0..<?n]"
    by (simp add: page_image_basename [OF form B])
  have "create_images_zip P fs pdf S Z B =
          (None, ?fs2(Z \<mapsto> File (zip_encode P
             (zip (map (\<lambda>i. B @ str ''_page_'' @ dec (i + 1) @ str ''.png'') [0..<?n]) pngs))))"
    by (simp only: create_images_zip_unfold [OF rd fo ne sp] wr zw names sum.case fst_conv
        snd_conv)
  then show ?thesis by simp
qed

lemma pdf_to_image_success:
  fixes L :: pylib and P :: pdflib and uid1 uid2 :: uuid and upload :: upload_file
    and w :: world and base :: ustr
  defines "pdf_path \<equiv> unique_file_path L uid1 (filename upload) PDF_DOWNLOAD_FOLDER"
  defines "session \<equiv> join IMAGE_DOWNLOAD_FOLDER (base @ str ''_'' @ uuid_hex uid2)"
  defines "zip_path \<equiv> join IMAGE_DOWNLOAD_FOLDER (base @ str ''_'' @ uuid_hex uid2 @ str ''.zip'')"
  defines "upload' \<equiv> upload\<lparr>pos := 0,
        read_log := read_log upload @ chunks_of CHUNK_SIZE (drop (pos upload) (data upload)) @ [[]]\<rparr>"
  assumes valid: "endswith (str_lower L (filename upload)) (str ''.pdf'')"
    and stem: "safe_stem L (filename upload) = Inr base"
    and nd: "writable (files w) pdf_path"
    and fit: "\<not> name_too_long session" "\<not> name_too_long zip_path"
      "\<And>i. i < length doc \<Longrightarrow> \<not> name_too_long (page_image_path session base i)"
    and fresh: "\<And>q. startswith q session \<Longrightarrow> files w q = None"
    and fo: "fitz_open P (drop (pos upload) (data upload)) = Inr doc" and ne: "doc \<noteq> []"
    and pix: "map get_pixmap doc = map Inr pngs"
  shows "\<exists>safe w'. pdf_to_image L P uid1 uid2 upload w =
           (Inr (FileResponse zip_path safe (content_disposition safe)),
            upload', w') \<and>
          files w' zip_path = Some (File (zip_encode P
             (zip (map (\<lambda>i. base @ str ''_page_'' @ dec (i + 1) @ str ''.png'') [0..<length doc])
                  pngs))) \<and>
          files w' session = None \<and>
          pending w' = pending w @ [(pdf_path, 300), (zip_path, 600)]"
proof -
  let ?b = "drop (pos upload) (data upload)"
  let ?fs1 = "(files w)(pdf_path \<mapsto> File ?b)"
  have sv: "save_upload_file L uid1 upload PDF_DOWNLOAD_FOLDER (files w) =
              (Inr pdf_path, upload', ?fs1)"
    unfolding pdf_path_def upload'_def using nd
    by (intro save_upload_file_ok) (simp add: pdf_path_def)
  have pf: "\<not> name_too_long pdf_path" using nd by (simp add: writable_def)
  have bc: "base \<noteq> []" "list_all in_class base"
    using safe_stem_class [OF stem] by simp_all
  note sf = session_facts [OF bc, of uid2, folded session_def zip_path_def]
  have hp: "hd pdf_path = 112" unfolding pdf_path_def by (rule pdf_path_hd)
  have ps: "pdf_path \<noteq> session" using hp sf(2) by auto
  have pz: "pdf_path \<noteq> zip_path" using hp sf(3) by auto
  have pu: "\<And>q. startswith q session \<Longrightarrow> q \<noteq> pdf_path"
    using startswith_hd [of pdf_path session "[]"] hp sf(1,2) by auto
  have under: "\<And>q. startswith q (session @ [slash]) \<Longrightarrow> startswith q session"
    by (auto simp: startswith_def) (metis append_eq_conv_conj take_add take_all_iff
        length_append length_take min.absorb2 nat_le_linear take_take)
  have ss: "startswith session session" by (simp add: startswith_def)
  have sz: "startswith zip_path session" by (simp add: sf(4) startswith_def)
  have "?fs1 session = None" using fresh [OF ss] ps by simp
  then have mk: "os_makedirs ?fs1 session = Inr (?fs1(session \<mapsto> Dir))"
    using fit(1) by (simp add: os_makedirs_def)
  let ?fs1' = "?fs1(session \<mapsto> Dir)"
  have rd: "read_file ?fs1' pdf_path = Inr ?b"
    using ps pf by (simp add: read_file_def)
  have nodir: "\<And>q. startswith q (session @ [slash]) \<Longrightarrow> ?fs1' q \<noteq> Some Dir"
  proof -
    fix q assume q: "startswith q (session @ [slash])"
    then have "q \<noteq> session" using sf(7) by auto
    moreover have "files w q = None" using fresh under q by blast
    ultimately show "?fs1' q \<noteq> Some Dir" by simp
  qed
  have zd: "?fs1' zip_path \<noteq> Some Dir"
    using fresh [OF sz] sf(5) by simp
  from create_images_zip_success [where fs = ?fs1', OF sf(8) bc(2) rd fo ne pix nodir zd sf(6)
      fit(2,3)]
  obtain fs2 where cv: "create_images_zip P ?fs1' pdf_path session zip_path base = (None, fs2)"
    and zc: "fs2 zip_path = Some (File (zip_encode P
             (zip (map (\<lambda>i. base @ str ''_page_'' @ dec (i + 1) @ str ''.png'') [0..<length doc])
                  pngs)))"
    by blast
  have sdir: "fs2 session = Some Dir"
    using images_zip_other [of session base session zip_path P ?fs1' pdf_path] sf(5,7,8) cv
    by simp
  let ?fs2' = "\<lambda>q. if q = session \<or> startswith q (session @ [slash]) then None else fs2 q"
  have rt: "shutil_rmtree fs2 session = ?fs2'"
    by (simp add: shutil_rmtree_def sdir fit(1))
  let ?safe = "re_sub (filter (\<lambda>c. c < 128) (normalize_NFKD L (basename zip_path)))"
  have rf: "respond_file L zip_path =
              Inr (FileResponse zip_path ?safe (content_disposition ?safe))"
    by (simp add: respond_file_def ascii_filename_value)
  let ?w' = "delete_file_later zip_path 600
               (delete_file_later pdf_path 300 (w\<lparr>files := ?fs2'\<rparr>))"
  have "pdf_to_image L P uid1 uid2 upload w =
          (Inr (FileResponse zip_path ?safe (content_disposition ?safe)),
           upload', ?w')"
    unfolding pdf_to_image_def
    by (simp add: valid sv stem Let_def mk cv rt rf flip: session_def zip_path_def)
  moreover have "files ?w' zip_path = fs2 zip_path"
    using sf(5,6) by (simp add: delete_file_later_def)
  moreover have "files ?w' session = None" by (simp add: delete_file_later_def)
  moreover have "pending ?w' = pending w @ [(pdf_path, 300), (zip_path, 600)]"
    by (simp add: delete_file_later_def)
  ultimately show ?thesis using zc by auto
qed

lemma dec_small: "n < 10 \<Longrightarrow> dec n = [48 + n]"
  by (subst dec.simps) simp

lemma dec_examples: "dec 0 = str ''0''" "dec 7 = str ''7''" "dec 10 = str ''10''"
  "dec 12 = str ''12''" "dec 305 = str ''305''"
proof -
  show "dec 0 = str ''0''" "dec 7 = str ''7''"
    by (simp_all add: dec_small str_def)
  have "dec 10 = dec 1 @ [48]" by (subst dec.simps) simp
  then show "dec 10 = str ''10''" by (simp add: dec_small str_def)
  have "dec 12 = dec 1 @ [50]" by (subst dec.simps) simp
  then show "dec 12 = str ''12''" by (simp add: dec_small str_def)
  have "dec 30 = dec 3 @ [48]" by (subst dec.simps) simp
  moreover have "dec 305 = dec 30 @ [53]" by (subst dec.simps) simp
  ultimately show "dec 305 = str ''305''" by (simp add: dec_small str_def)
qed

lemma sample_image_fits:
  assumes "i < 9"
  shows "\<not> name_too_long
           (page_image_path (join IMAGE_DOWNLOAD_FOLDER (str ''A'' @ str ''_'' @ uuid_hex uid))
              (str ''A'') i)"
proof -
  have A: "str ''A'' \<noteq> []" "list_all in_class (str ''A'')"
    by (simp_all add: str_def in_class_def)
  let ?S = "join IMAGE_DOWNLOAD_FOLDER (str ''A'' @ str ''_'' @ uuid_hex uid)"
  have S: "?S = IMAGE_DOWNLOAD_FOLDER @ slash # str ''A'' @ str ''_'' @ uuid_hex uid"
    using A by (simp add: derived_path_form folder_facts)
  have d: "dec (i + 1) = [48 + (i + 1)]"
    using assms by (simp add: dec_small)
  have form: "page_image_path ?S (str ''A'') i =
                ?S @ slash # str ''A'' @ str ''_page_'' @ dec (i + 1) @ str ''.png''"
    by (rule page_image_path_form) (rule session_facts(8) [OF A])
  have "list_all (\<lambda>c. c < 128) (uuid_hex uid)" by (rule uuid_hex_ascii)
  then have "list_all (\<lambda>c. c < 128)
               (?S @ slash # str ''A'' @ str ''_page_'' @ dec (i + 1) @ str ''.png'')"
    using assms unfolding S d
    by (simp add: IMAGE_DOWNLOAD_FOLDER_def str_def slash_def)
  moreover have "length (?S @ slash # str ''A'' @ str ''_page_'' @ dec (i + 1) @ str ''.png'') \<le> 255"
    unfolding S d by (simp add: IMAGE_DOWNLOAD_FOLDER_def str_def uuid_hex_length)
  ultimately show ?thesis
    unfolding form by (rule short_ascii_name)
qed

text \<open>
  Claim C8: an upload with a PDF name whose document has \<open>N \<ge> 1\<close> pages, all of which
  render, goes through \<open>/pdf/to-image\<close>: the response is a file response for the archive,
  and the archive holds exactly \<open>N\<close> entries, in page order, the \<open>i\<close>-th named
  \<open>base_page_i.png\<close> and holding the PNG of page \<open>i\<close>, where \<open>base\<close> is \<open>safe_stem\<close> of the
  uploaded file name. The hypotheses say that the handler can create what it allocates:
  the upload path can be opened for writing, the names of the session directory, of the
  archive and of the page images fit (the stem is short enough), and no path that starts
  with the session path exists yet, as is the case for a fresh identifier.
\<close>

theorem image_zip_entries:
  assumes valid: "endswith (str_lower L (filename upload)) (str ''.pdf'')"
    and stem: "safe_stem L (filename upload) = Inr base"
    and nd: "writable (files w)
                 (unique_file_path L uid1 (filename upload) PDF_DOWNLOAD_FOLDER)"
    and fit: "\<not> name_too_long (join IMAGE_DOWNLOAD_FOLDER (base @ str ''_'' @ uuid_hex uid2))"
      "\<not> name_too_long (join IMAGE_DOWNLOAD_FOLDER (base @ str ''_'' @ uuid_hex uid2 @ str ''.zip''))"
      "\<And>i. i < length doc \<Longrightarrow>
         \<not> name_too_long
             (page_image_path (join IMAGE_DOWNLOAD_FOLDER (base @ str ''_'' @ uuid_hex uid2)) base i)"
    and fresh: "\<And>q. startswith q (join IMAGE_DOWNLOAD_FOLDER (base @ str ''_'' @ uuid_hex uid2))
                  \<Longrightarrow> files w q = None"
    and fo: "fitz_open P (drop (pos upload) (data upload)) = Inr doc" and ne: "doc \<noteq> []"
    and pix: "map get_pixmap doc = map Inr pngs"
  shows "(let names = map (\<lambda>i. base @ str ''_page_'' @ dec (i + 1) @ str ''.png'')
                        [0..<length doc];
              zip_path = join IMAGE_DOWNLOAD_FOLDER (base @ str ''_'' @ uuid_hex uid2 @ str ''.zip'')
          in \<exists>safe upload' w'.
               pdf_to_image L P uid1 uid2 upload w =
                 (Inr (FileResponse zip_path safe (content_disposition safe)), upload', w') \<and>
               files w' zip_path = Some (File (zip_encode P (zip names pngs))) \<and>
               length (zip names pngs) = length doc \<and>
               map fst (zip names pngs) = names \<and>
               map snd (zip names pngs) = pngs)"
proof -
  have len: "length pngs = length doc"
    using pix by (metis length_map)
  from pdf_to_image_success [where w = w and ?uid2.0 = uid2 and base = base,
      OF valid stem nd fit fresh fo ne pix]
  show ?thesis
    unfolding Let_def using len by auto
qed

theorem image_zip_entries_witness:
  "\<exists>safe upload' w'.
     pdf_to_image sample_lib
        (sample_pdflib [FitzPage (Inr [1]), FitzPage (Inr [2]), FitzPage (Inr [3])] []) 4 5
        \<lparr>filename = str ''A.PDF'', data = [7], pos = 0, read_log = []\<rparr> empty_world =
       (Inr (FileResponse
               (join IMAGE_DOWNLOAD_FOLDER (str ''A'' @ str ''_'' @ uuid_hex 5 @ str ''.zip''))
               safe (content_disposition safe)),
        upload', w') \<and>
     files w' (join IMAGE_DOWNLOAD_FOLDER (str ''A'' @ str ''_'' @ uuid_hex 5 @ str ''.zip'')) =
       Some (File (zip_encode
                     (sample_pdflib [FitzPage (Inr [1]), FitzPage (Inr [2]), FitzPage (Inr [3])] [])
                     [(str ''A_page_1.png'', [1]), (str ''A_page_2.png'', [2]),
                      (str ''A_page_3.png'', [3])]))"
proof -
  let ?U = "\<lparr>filename = str ''A.PDF'', data = [7], pos = 0, read_log = []\<rparr>"
  let ?doc = "[FitzPage (Inr [1]), FitzPage (Inr [2]), FitzPage (Inr [3])]"
  let ?P = "sample_pdflib ?doc []"
  have valid: "endswith (str_lower sample_lib (filename ?U)) (str ''.pdf'')"
    by (simp add: sample_valid)
  have stem: "safe_stem sample_lib (filename ?U) = Inr (str ''A'')"
    by (simp add: sample_stem)
  have nd: "writable (files empty_world)
               (unique_file_path sample_lib 4 (filename ?U) PDF_DOWNLOAD_FOLDER)"
    by (simp add: sample_writable)
  have fit: "\<not> name_too_long (join IMAGE_DOWNLOAD_FOLDER (str ''A'' @ str ''_'' @ uuid_hex 5))"
    "\<not> name_too_long (join IMAGE_DOWNLOAD_FOLDER (str ''A'' @ str ''_'' @ uuid_hex 5 @ str ''.zip''))"
    "\<And>i. i < length ?doc \<Longrightarrow>
       \<not> name_too_long
           (page_image_path (join IMAGE_DOWNLOAD_FOLDER (str ''A'' @ str ''_'' @ uuid_hex 5))
              (str ''A'') i)"
    by (simp_all add: sample_session_fits sample_zip_fits sample_image_fits)
  have fresh: "\<And>q. startswith q (join IMAGE_DOWNLOAD_FOLDER (str ''A'' @ str ''_'' @ uuid_hex 5))
                  \<Longrightarrow> files empty_world q = None"
    by (simp add: empty_world_def)
  have fo: "fitz_open ?P (drop (pos ?U) (data ?U)) = Inr ?doc"
    by (simp add: sample_pdflib_fields)
  have ne: "?doc \<noteq> []" by simp
  have pix: "map get_pixmap ?doc = map Inr [[1], [2], [3]]" by simp
  have upt3: "[0..<length ?doc] = [0, 1, 2]"
    by (simp add: upt_rec)
  have names: "map (\<lambda>i. str ''A'' @ str ''_page_'' @ dec (i + 1) @ str ''.png'') [0..<length ?doc] =
                 [str ''A_page_1.png'', str ''A_page_2.png'', str ''A_page_3.png'']"
    unfolding upt3 by (simp add: dec_small str_def)
  from image_zip_entries [where w = empty_world and ?uid2.0 = 5 and base = "str ''A''",
      OF valid stem nd fit fresh fo ne pix, unfolded Let_def names]
  show ?thesis by auto
qed

end
